theory Spec2Isabelle
  imports Complex_Main "HOL-Library.Sublist"
begin

section \<open>Numbers: finite values and positive infinity\<close>

text \<open>
  The program computes with Python numbers: the integer \<open>0\<close>, the weights and hub
  costs read with \<open>float(...)\<close>, and \<open>float('inf')\<close>. They are modelled as exact reals
  extended by \<open>+infinity\<close>; rounding of floating-point sums is not modelled, and
  neither \<open>-infinity\<close> nor NaN is a value of the model.
\<close>

datatype ext = Fin real | PInf

instantiation ext :: "{zero, plus, linorder}"
begin

definition zero_ext_def: "0 = Fin 0"

definition plus_ext_def:
  "a + b = (case a of PInf \<Rightarrow> PInf | Fin x \<Rightarrow> (case b of PInf \<Rightarrow> PInf | Fin y \<Rightarrow> Fin (x + y)))"

definition less_eq_ext_def:
  "a \<le> b = (case b of PInf \<Rightarrow> True | Fin y \<Rightarrow> (case a of PInf \<Rightarrow> False | Fin x \<Rightarrow> x \<le> y))"

definition less_ext_def:
  "a < b = (case a of PInf \<Rightarrow> False | Fin x \<Rightarrow> (case b of PInf \<Rightarrow> True | Fin y \<Rightarrow> x < y))"

instance
proof
  fix x y z :: ext
  show "(x < y) = (x \<le> y \<and> \<not> y \<le> x)"
    by (cases x; cases y) (auto simp: less_ext_def less_eq_ext_def)
  show "x \<le> x"
    by (cases x) (auto simp: less_eq_ext_def)
  show "x \<le> y \<Longrightarrow> y \<le> z \<Longrightarrow> x \<le> z"
    by (cases x; cases y; cases z) (auto simp: less_eq_ext_def)
  show "x \<le> y \<Longrightarrow> y \<le> x \<Longrightarrow> x = y"
    by (cases x; cases y) (auto simp: less_eq_ext_def)
  show "x \<le> y \<or> y \<le> x"
    by (cases x; cases y) (auto simp: less_eq_ext_def)
qed

end

instance ext :: ordered_comm_monoid_add
proof
  fix a b c :: ext
  show "a + b + c = a + (b + c)"
    by (cases a; cases b; cases c) (simp_all add: plus_ext_def)
  show "a + b = b + a"
    by (cases a; cases b) (simp_all add: plus_ext_def)
  show "0 + a = a"
    by (cases a) (simp_all add: zero_ext_def plus_ext_def)
  show "a \<le> b \<Longrightarrow> c + a \<le> c + b"
    by (cases a; cases b; cases c) (simp_all add: plus_ext_def less_eq_ext_def)
qed

text \<open>
  The only subtraction of the program is \<open>mejor_costo - mejor_distancia\<close>. Python gives
  \<open>-inf\<close> or NaN when the subtrahend is infinite; these are outside \<open>ext\<close>, so the
  difference is an option value and \<open>None\<close> stands for them.
\<close>

fun ext_minus :: "ext \<Rightarrow> ext \<Rightarrow> ext option" where
  "ext_minus (Fin x) (Fin y) = Some (Fin (x - y))"
| "ext_minus PInf (Fin y) = Some PInf"
| "ext_minus a PInf = None"

section \<open>Python list indexing\<close>

datatype error = IndexError | KeyError

text \<open>
  \<open>xs[i]\<close> for a Python integer \<open>i\<close>: a negative index counts from the end, anything
  outside \<open>[-len, len)\<close> raises IndexError.
\<close>

definition py_index :: "nat \<Rightarrow> int \<Rightarrow> error + nat" where
  "py_index n i =
     (if 0 \<le> i \<and> i < int n then Inr (nat i)
      else if - int n \<le> i \<and> i < 0 then Inr (nat (int n + i))
      else Inl IndexError)"

type_synonym matrix = "ext list list"

definition mget :: "matrix \<Rightarrow> int \<Rightarrow> int \<Rightarrow> error + ext" where
  "mget m i j =
     (case py_index (length m) i of Inl e \<Rightarrow> Inl e
      | Inr a \<Rightarrow> (case py_index (length (m ! a)) j of Inl e \<Rightarrow> Inl e
                 | Inr b \<Rightarrow> Inr (m ! a ! b)))"

definition mset_entry :: "matrix \<Rightarrow> int \<Rightarrow> int \<Rightarrow> ext \<Rightarrow> error + matrix" where
  "mset_entry m i j x =
     (case py_index (length m) i of Inl e \<Rightarrow> Inl e
      | Inr a \<Rightarrow> (case py_index (length (m ! a)) j of Inl e \<Rightarrow> Inl e
                 | Inr b \<Rightarrow> Inr (m[a := (m ! a)[b := x]])))"

section \<open>floyd_warshall\<close>

text \<open>
  \<open>aristas\<close> is a dict keyed by node pairs; it is modelled by the list of its items in
  insertion order, which is the order \<open>aristas.items()\<close> yields.
\<close>

type_synonym aristas = "((int \<times> int) \<times> ext) list"

definition matriz_inicial :: "nat \<Rightarrow> matrix" where
  "matriz_inicial n =
     fold (\<lambda>i d. d[i := (d ! i)[i := 0]]) [0..<n] (replicate n (replicate n PInf))"

fun cargar_aristas :: "aristas \<Rightarrow> matrix \<Rightarrow> error + matrix" where
  "cargar_aristas [] d = Inr d"
| "cargar_aristas (((u, v), peso) # r) d =
     (case mset_entry d u v peso of Inl e \<Rightarrow> Inl e
      | Inr d1 \<Rightarrow> (case mset_entry d1 v u peso of Inl e \<Rightarrow> Inl e
                  | Inr d2 \<Rightarrow> cargar_aristas r d2))"

definition relajar :: "nat \<Rightarrow> nat \<Rightarrow> nat \<Rightarrow> matrix \<Rightarrow> matrix" where
  "relajar k i j d =
     (if d ! i ! j > d ! i ! k + d ! k ! j
      then d[i := (d ! i)[j := d ! i ! k + d ! k ! j]] else d)"

definition bucle_j :: "nat \<Rightarrow> nat \<Rightarrow> nat \<Rightarrow> matrix \<Rightarrow> matrix" where
  "bucle_j n k i d = fold (relajar k i) [0..<n] d"

definition bucle_i :: "nat \<Rightarrow> nat \<Rightarrow> matrix \<Rightarrow> matrix" where
  "bucle_i n k d = fold (bucle_j n k) [0..<n] d"

definition bucle_k :: "nat \<Rightarrow> matrix \<Rightarrow> matrix" where
  "bucle_k n d = fold (bucle_i n) [0..<n] d"

definition floyd_warshall :: "aristas \<Rightarrow> nat \<Rightarrow> error + matrix" where
  "floyd_warshall es num_nodos =
     (case cargar_aristas es (matriz_inicial num_nodos) of Inl e \<Rightarrow> Inl e
      | Inr d \<Rightarrow> Inr (bucle_k num_nodos d))"


section \<open>calcular_mejor_camino\<close>

text \<open>
  The parsed case: the two configuration entries the solver reads, the dict of hubs
  (hub id to activation cost) and the dict of packages (package id to origin and
  destination), each as the list of its items in insertion order.
\<close>

record datos =
  deposito_id :: int
  capacidad_camion :: int
  hubs :: "(int \<times> ext) list"
  paquetes :: "(int \<times> int \<times> int) list"

text \<open>
  \<open>paquetes_por_destino[destino] = paquetes_por_destino.get(destino, 0) + 1\<close>: a key
  already present keeps its position, a new key is appended.
\<close>

fun sumar_destino :: "(int \<times> int) list \<Rightarrow> int \<Rightarrow> (int \<times> int) list" where
  "sumar_destino [] d = [(d, 1)]"
| "sumar_destino ((k, c) # r) d =
     (if k = d then (k, c + 1) # r else (k, c) # sumar_destino r d)"

definition paquetes_por_destino :: "(int \<times> int \<times> int) list \<Rightarrow> (int \<times> int) list" where
  "paquetes_por_destino ps = fold (\<lambda>(_, _, destino) m. sumar_destino m destino) ps []"

text \<open>
  The grouping loop over \<open>destinos\<close>, with its three variables \<open>viajes\<close>,
  \<open>viaje_actual\<close> and \<open>carga_actual\<close>; the destinations and their counts are the
  items of \<open>paquetes_por_destino\<close>.
\<close>

fun agrupar :: "int \<Rightarrow> (int \<times> int) list \<Rightarrow> int list list \<Rightarrow> int list \<Rightarrow> int
    \<Rightarrow> int list list \<times> int list" where
  "agrupar cap [] viajes viaje_actual carga_actual = (viajes, viaje_actual)"
| "agrupar cap ((d, cant) # r) viajes viaje_actual carga_actual =
     (if carga_actual + cant > cap
      then agrupar cap r (viajes @ [viaje_actual]) [d] cant
      else agrupar cap r viajes (viaje_actual @ [d]) (carga_actual + cant))"

definition viajes_de :: "int \<Rightarrow> (int \<times> int) list \<Rightarrow> int list list" where
  "viajes_de cap ppd =
     (case agrupar cap ppd [] [] 0 of
        (viajes, viaje_actual) \<Rightarrow>
          if viaje_actual \<noteq> [] then viajes @ [viaje_actual] else viajes)"

text \<open>The inner \<open>for k in range(len(viaje_ordenado) - 1)\<close> loop.\<close>

fun tramos :: "matrix \<Rightarrow> int list \<Rightarrow> ext \<Rightarrow> error + ext" where
  "tramos m (x # y # r) acc =
     (case mget m x y of Inl e \<Rightarrow> Inl e | Inr t \<Rightarrow> tramos m (y # r) (acc + t))"
| "tramos m r acc = Inr acc"

definition distancia_viaje :: "matrix \<Rightarrow> int \<Rightarrow> int \<Rightarrow> int list \<Rightarrow> error + ext" where
  "distancia_viaje m deposito punto_inicio viaje =
     (case viaje of [] \<Rightarrow> Inl IndexError
      | x # _ \<Rightarrow>
         (case mget m punto_inicio x of Inl e \<Rightarrow> Inl e
          | Inr a \<Rightarrow>
             (case tramos m viaje a of Inl e \<Rightarrow> Inl e
              | Inr b \<Rightarrow>
                 (case mget m (last viaje) deposito of Inl e \<Rightarrow> Inl e
                  | Inr c \<Rightarrow> Inr (b + c)))))"

text \<open>
  The loop over \<open>[deposito] + hubs_activos\<close>; the state is
  \<open>(menor_distancia_viaje, mejor_inicio)\<close>.
\<close>

fun probar_inicios :: "matrix \<Rightarrow> int \<Rightarrow> int list \<Rightarrow> int list \<Rightarrow> ext \<times> int
    \<Rightarrow> error + ext \<times> int" where
  "probar_inicios m deposito viaje [] st = Inr st"
| "probar_inicios m deposito viaje (p # ps) (menor, mejor_inicio) =
     (case distancia_viaje m deposito p viaje of Inl e \<Rightarrow> Inl e
      | Inr dv \<Rightarrow>
          probar_inicios m deposito viaje ps
            (if dv < menor then (dv, p) else (menor, mejor_inicio)))"

text \<open>The loop over \<open>viajes\<close>; the state is \<open>(distancia_total, ruta_total)\<close>.\<close>

fun recorrer :: "matrix \<Rightarrow> int \<Rightarrow> int list \<Rightarrow> int list list \<Rightarrow> ext \<times> int list
    \<Rightarrow> error + ext \<times> int list" where
  "recorrer m deposito hubs_activos [] st = Inr st"
| "recorrer m deposito hubs_activos (viaje # vs) (distancia_total, ruta_total) =
     (case probar_inicios m deposito viaje (deposito # hubs_activos) (PInf, deposito) of
        Inl e \<Rightarrow> Inl e
      | Inr (menor, mejor_inicio) \<Rightarrow>
          recorrer m deposito hubs_activos vs
            (distancia_total + menor, ruta_total @ [mejor_inicio] @ viaje @ [deposito]))"

text \<open>The four \<open>nonlocal\<close> variables of the search.\<close>

record mejor =
  mejor_costo :: ext
  mejor_hubs :: "int list"
  mejor_ruta :: "int list"
  mejor_distancia :: ext

definition mejor_inicial :: mejor where
  "mejor_inicial =
     \<lparr>mejor_costo = PInf, mejor_hubs = [], mejor_ruta = [], mejor_distancia = 0\<rparr>"

text \<open>The base case of \<open>probar_combinaciones\<close> (\<open>indice == len(hubs)\<close>).\<close>

definition hoja :: "datos \<Rightarrow> matrix \<Rightarrow> (int \<times> int) list \<Rightarrow> int list \<Rightarrow> ext \<Rightarrow> mejor
    \<Rightarrow> error + mejor" where
  "hoja dt m ppd hubs_activos costo_activacion b =
     (case recorrer m (deposito_id dt) hubs_activos (viajes_de (capacidad_camion dt) ppd)
             (0, [deposito_id dt]) of
        Inl e \<Rightarrow> Inl e
      | Inr (distancia_total, ruta_total) \<Rightarrow>
          (let costo_total = distancia_total + costo_activacion
           in if costo_total < mejor_costo b
              then Inr \<lparr>mejor_costo = costo_total, mejor_hubs = hubs_activos,
                        mejor_ruta = ruta_total, mejor_distancia = distancia_total\<rparr>
              else Inr b))"

text \<open>
  \<open>probar_combinaciones\<close>: the exclude branch runs first, then \<open>hubs_activos.append\<close>
  and the include branch; an exception of the first call ends the search. An index
  beyond the hub list can never compare equal to its length, and \<open>hubs[indice]\<close>
  raises.
\<close>

function probar_combinaciones :: "datos \<Rightarrow> matrix \<Rightarrow> (int \<times> int) list \<Rightarrow> nat \<Rightarrow> int list
    \<Rightarrow> ext \<Rightarrow> mejor \<Rightarrow> error + mejor" where
  "probar_combinaciones dt m ppd indice hubs_activos costo_activacion b =
     (if indice = length (hubs dt) then hoja dt m ppd hubs_activos costo_activacion b
      else if indice > length (hubs dt) then Inl IndexError
      else
        (case probar_combinaciones dt m ppd (indice + 1) hubs_activos costo_activacion b of
           Inl e \<Rightarrow> Inl e
         | Inr b1 \<Rightarrow>
            (let hub_actual = fst (hubs dt ! indice)
             in case map_of (hubs dt) hub_actual of None \<Rightarrow> Inl KeyError
                | Some c \<Rightarrow>
                    probar_combinaciones dt m ppd (indice + 1) (hubs_activos @ [hub_actual])
                      (costo_activacion + c) b1)))"
  by pat_completeness auto
termination
  by (relation "measure (\<lambda>(dt, m, ppd, indice, r). length (hubs dt) - indice)") auto

declare probar_combinaciones.simps [simp del]

record resultado =
  ruta :: "int list"
  hubs_elegidos :: "int list"
  costo_total :: ext
  distancia :: ext
  costo_solo_hubs :: "ext option"

definition calcular_mejor_camino :: "datos \<Rightarrow> matrix \<Rightarrow> error + resultado" where
  "calcular_mejor_camino dt m =
     (case probar_combinaciones dt m (paquetes_por_destino (paquetes dt)) 0 [] 0 mejor_inicial of
        Inl e \<Rightarrow> Inl e
      | Inr b \<Rightarrow>
          Inr \<lparr>ruta = mejor_ruta b, hubs_elegidos = mejor_hubs b, costo_total = mejor_costo b,
               distancia = mejor_distancia b,
               costo_solo_hubs = ext_minus (mejor_costo b) (mejor_distancia b)\<rparr>)"

section \<open>The worked scenario\<close>

text \<open>
  Four nodes, depot \<open>0\<close>, the undirected edges \<open>(0,1,5)\<close>, \<open>(1,2,5)\<close>, \<open>(2,3,5)\<close>,
  \<open>(0,3,9)\<close> as \<open>leer_datos\<close> stores them (both directions), one hub at node \<open>1\<close>
  with cost \<open>1\<close>, capacity \<open>10\<close>, one package for node \<open>2\<close> and one for node \<open>3\<close>.
\<close>

definition aristas_ejemplo :: aristas where
  "aristas_ejemplo =
     [((0, 1), Fin 5), ((1, 0), Fin 5), ((1, 2), Fin 5), ((2, 1), Fin 5),
      ((2, 3), Fin 5), ((3, 2), Fin 5), ((0, 3), Fin 9), ((3, 0), Fin 9)]"

definition matriz_ejemplo :: matrix where
  "matriz_ejemplo =
     [[Fin 0, Fin 5, Fin 10, Fin 9], [Fin 5, Fin 0, Fin 5, Fin 10],
      [Fin 10, Fin 5, Fin 0, Fin 5], [Fin 9, Fin 10, Fin 5, Fin 0]]"

definition datos_ejemplo :: datos where
  "datos_ejemplo =
     \<lparr>deposito_id = 0, capacidad_camion = 10, hubs = [(1, Fin 1)],
      paquetes = [(1, 0, 2), (2, 0, 3)]\<rparr>"

text \<open>Eleven packages, all for node \<open>2\<close>, and a truck of capacity \<open>10\<close>.\<close>

definition datos_sobrecarga :: datos where
  "datos_sobrecarga =
     \<lparr>deposito_id = 0, capacidad_camion = 10, hubs = [],
      paquetes = [(1, 0, 2), (2, 0, 2), (3, 0, 2), (4, 0, 2), (5, 0, 2), (6, 0, 2),
                  (7, 0, 2), (8, 0, 2), (9, 0, 2), (10, 0, 2), (11, 0, 2)]\<rparr>"



text \<open>The worked scenario without any package.\<close>

definition datos_sin_paquetes :: datos where
  "datos_sin_paquetes =
     \<lparr>deposito_id = 0, capacidad_camion = 10, hubs = [(1, Fin 1)], paquetes = []\<rparr>"


text \<open>The best result of the worked scenario, and of its leaf without hubs.\<close>

definition mejor_ejemplo :: mejor where
  "mejor_ejemplo =
     \<lparr>mejor_costo = Fin 20, mejor_hubs = [1], mejor_ruta = [0, 1, 2, 3, 0],
      mejor_distancia = Fin 19\<rparr>"

definition mejor_sin_hubs_ejemplo :: mejor where
  "mejor_sin_hubs_ejemplo =
     \<lparr>mejor_costo = Fin 24, mejor_hubs = [], mejor_ruta = [0, 0, 2, 3, 0],
      mejor_distancia = Fin 24\<rparr>"

text \<open>
  Two nodes without any edge, the depot at node \<open>0\<close>, a hub at node \<open>1\<close> and one
  package for node \<open>1\<close>: no route reaches the destination and returns.
\<close>

definition datos_desconectado :: datos where
  "datos_desconectado =
     \<lparr>deposito_id = 0, capacidad_camion = 10, hubs = [(1, Fin 1)], paquetes = [(1, 0, 1)]\<rparr>"

definition matriz_desconectada :: matrix where
  "matriz_desconectada = [[Fin 0, PInf], [PInf, Fin 0]]"

section \<open>The search over a partition computed once\<close>

text \<open>
  The search as the specification words it: the trip partition is computed once, before
  the search starts, and every leaf receives that same partition. The source instead
  rebuilds the partition inside each leaf (\<open>hoja\<close> above).
\<close>

definition hoja_con_viajes :: "datos \<Rightarrow> matrix \<Rightarrow> int list list \<Rightarrow> int list \<Rightarrow> ext \<Rightarrow> mejor
    \<Rightarrow> error + mejor" where
  "hoja_con_viajes dt m viajes hubs_activos costo_activacion b =
     (case recorrer m (deposito_id dt) hubs_activos viajes (0, [deposito_id dt]) of
        Inl e \<Rightarrow> Inl e
      | Inr (distancia_total, ruta_total) \<Rightarrow>
          (let costo_total = distancia_total + costo_activacion
           in if costo_total < mejor_costo b
              then Inr \<lparr>mejor_costo = costo_total, mejor_hubs = hubs_activos,
                        mejor_ruta = ruta_total, mejor_distancia = distancia_total\<rparr>
              else Inr b))"

function buscar_con_viajes :: "datos \<Rightarrow> matrix \<Rightarrow> int list list \<Rightarrow> nat \<Rightarrow> int list
    \<Rightarrow> ext \<Rightarrow> mejor \<Rightarrow> error + mejor" where
  "buscar_con_viajes dt m viajes indice hubs_activos costo_activacion b =
     (if indice = length (hubs dt)
      then hoja_con_viajes dt m viajes hubs_activos costo_activacion b
      else if indice > length (hubs dt) then Inl IndexError
      else
        (case buscar_con_viajes dt m viajes (indice + 1) hubs_activos costo_activacion b of
           Inl e \<Rightarrow> Inl e
         | Inr b1 \<Rightarrow>
            (let hub_actual = fst (hubs dt ! indice)
             in case map_of (hubs dt) hub_actual of None \<Rightarrow> Inl KeyError
                | Some c \<Rightarrow>
                    buscar_con_viajes dt m viajes (indice + 1) (hubs_activos @ [hub_actual])
                      (costo_activacion + c) b1)))"
  by pat_completeness auto
termination
  by (relation "measure (\<lambda>(dt, m, viajes, indice, r). length (hubs dt) - indice)") auto

declare buscar_con_viajes.simps [simp del]

definition resolver_con_particion_previa :: "datos \<Rightarrow> matrix \<Rightarrow> error + resultado" where
  "resolver_con_particion_previa dt m =
     (let viajes = viajes_de (capacidad_camion dt) (paquetes_por_destino (paquetes dt))
      in case buscar_con_viajes dt m viajes 0 [] 0 mejor_inicial of
           Inl e \<Rightarrow> Inl e
         | Inr b \<Rightarrow>
             Inr \<lparr>ruta = mejor_ruta b, hubs_elegidos = mejor_hubs b,
                  costo_total = mejor_costo b, distancia = mejor_distancia b,
                  costo_solo_hubs = ext_minus (mejor_costo b) (mejor_distancia b)\<rparr>)"

section \<open>The leaves of the search, in the order they are reached\<close>

text \<open>
  The leaves below a call of \<open>probar_combinaciones\<close>: the hubs not yet decided are
  \<open>r\<close>, the exclude branch comes first, the include branch appends the hub to
  \<open>hubs_activos\<close> and adds its cost \<open>costo_hubs[hub_actual]\<close>, looked up in the whole
  dict \<open>H\<close>. A leaf is the pair of its active hubs and its activation cost.
\<close>

fun hojas_desde :: "(int \<times> ext) list \<Rightarrow> (int \<times> ext) list \<Rightarrow> int list \<Rightarrow> ext
    \<Rightarrow> (int list \<times> ext) list" where
  "hojas_desde H [] hubs_activos costo_activacion = [(hubs_activos, costo_activacion)]"
| "hojas_desde H ((h, c0) # r) hubs_activos costo_activacion =
     hojas_desde H r hubs_activos costo_activacion @
     (case map_of H h of None \<Rightarrow> []
      | Some c \<Rightarrow> hojas_desde H r (hubs_activos @ [h]) (costo_activacion + c))"

text \<open>The leaves evaluated one after the other; an exception ends the evaluation.\<close>

fun evaluar_hojas :: "datos \<Rightarrow> matrix \<Rightarrow> (int \<times> int) list \<Rightarrow> (int list \<times> ext) list \<Rightarrow> mejor
    \<Rightarrow> error + mejor" where
  "evaluar_hojas dt m ppd [] b = Inr b"
| "evaluar_hojas dt m ppd ((ha, ca) # r) b =
     (case hoja dt m ppd ha ca b of Inl e \<Rightarrow> Inl e
      | Inr b1 \<Rightarrow> evaluar_hojas dt m ppd r b1)"

text \<open>The total cost a leaf computes: \<open>distancia_total + costo_activacion\<close>.\<close>

definition costo_de_hoja :: "datos \<Rightarrow> matrix \<Rightarrow> (int \<times> int) list \<Rightarrow> int list \<times> ext
    \<Rightarrow> error + ext" where
  "costo_de_hoja dt m ppd h =
     (case recorrer m (deposito_id dt) (fst h) (viajes_de (capacidad_camion dt) ppd)
             (0, [deposito_id dt]) of
        Inl e \<Rightarrow> Inl e
      | Inr (distancia_total, ruta_total) \<Rightarrow> Inr (distancia_total + snd h))"

section \<open>The search with a count of its leaves and its depth\<close>



section \<open>Well-formed matrices and node identifiers\<close>

text \<open>
  The distance matrix of \<open>n\<close> nodes has \<open>n\<close> rows of \<open>n\<close> entries, and a node
  identifier of the declared range is an index \<open>0 \<le> i < n\<close>; \<open>entrada\<close> is the entry
  \<open>matriz[i][j]\<close> for such identifiers.
\<close>

definition cuadrada :: "nat \<Rightarrow> matrix \<Rightarrow> bool" where
  "cuadrada n m \<longleftrightarrow> length m = n \<and> list_all (\<lambda>fila. length fila = n) m"

definition en_rango :: "nat \<Rightarrow> int \<Rightarrow> bool" where
  "en_rango n i \<longleftrightarrow> 0 \<le> i \<and> i < int n"

definition entrada :: "matrix \<Rightarrow> int \<Rightarrow> int \<Rightarrow> ext" where
  "entrada m i j = m ! nat i ! nat j"

text \<open>
  The cost of a trip from a departure point, as the specification writes it:
  \<open>dist[start, trip[0]]\<close>, plus the distances between consecutive destinations, plus
  \<open>dist[trip[last], depot]\<close>.
\<close>

definition costo_salida :: "matrix \<Rightarrow> int \<Rightarrow> int \<Rightarrow> int list \<Rightarrow> ext" where
  "costo_salida m deposito punto_inicio viaje =
     entrada m punto_inicio (hd viaje) +
     sum_list (map2 (entrada m) (butlast viaje) (tl viaje)) +
     entrada m (last viaje) deposito"

section \<open>Paths in the road graph\<close>

text \<open>
  The weight of the edge between two nodes as the edge dict gives it: the weight of the
  first item whose key is the pair in either direction, \<open>+infinity\<close> when there is
  none.
\<close>

definition une :: "int \<Rightarrow> int \<Rightarrow> (int \<times> int) \<times> ext \<Rightarrow> bool" where
  "une a b e \<longleftrightarrow> fst e = (a, b) \<or> fst e = (b, a)"

definition peso_arista :: "aristas \<Rightarrow> nat \<Rightarrow> nat \<Rightarrow> ext" where
  "peso_arista es a b =
     (case find (une (int a) (int b)) es of None \<Rightarrow> PInf | Some e \<Rightarrow> snd e)"

text \<open>
  The total weight of the path that leaves \<open>a\<close>, visits the intermediate nodes \<open>ks\<close>
  in order and ends in \<open>b\<close>, for a weight function \<open>w\<close> on pairs of nodes.
\<close>

fun peso_camino :: "(nat \<Rightarrow> nat \<Rightarrow> ext) \<Rightarrow> nat \<Rightarrow> nat list \<Rightarrow> nat \<Rightarrow> ext" where
  "peso_camino w a [] b = w a b"
| "peso_camino w a (k # ks) b = w a k + peso_camino w k ks b"

text \<open>
  A valid edge dict for \<open>n\<close> nodes: every key joins two different nodes of the declared
  range, every weight is non-negative, and the two directions of an edge, when both are
  present, carry the same weight (the dict is symmetrised).
\<close>

definition arista_valida :: "nat \<Rightarrow> (int \<times> int) \<times> ext \<Rightarrow> bool" where
  "arista_valida n e \<longleftrightarrow>
     en_rango n (fst (fst e)) \<and> en_rango n (snd (fst e)) \<and> fst (fst e) \<noteq> snd (fst e) \<and>
     0 \<le> snd e"

definition aristas_validas :: "nat \<Rightarrow> aristas \<Rightarrow> bool" where
  "aristas_validas n es \<longleftrightarrow>
     list_all (arista_valida n) es \<and>
     list_all (\<lambda>e. list_all (\<lambda>e'. une (fst (fst e)) (snd (fst e)) e' \<longrightarrow> snd e' = snd e) es) es"

section \<open>Invariants of the relaxation loops\<close>

text \<open>
  Three relations between a matrix and the weights \<open>w\<close> of the graph: every entry of
  \<open>d\<close> is at most the entry of \<open>d0\<close>; every entry is the weight of some path (or the
  \<open>0\<close> of the diagonal); every entry is at most the weight of any path whose
  intermediate nodes are smaller than \<open>k\<close>.
\<close>

definition bajo :: "nat \<Rightarrow> matrix \<Rightarrow> matrix \<Rightarrow> bool" where
  "bajo n d d0 \<longleftrightarrow> (\<forall>a<n. \<forall>b<n. d ! a ! b \<le> d0 ! a ! b)"

definition realizada :: "(nat \<Rightarrow> nat \<Rightarrow> ext) \<Rightarrow> nat \<Rightarrow> matrix \<Rightarrow> bool" where
  "realizada w n d \<longleftrightarrow>
     (\<forall>a<n. \<forall>b<n. (a = b \<and> d ! a ! b = 0) \<or>
        (\<exists>ks. set ks \<subseteq> {..<n} \<and> peso_camino w a ks b = d ! a ! b))"

definition acotada :: "(nat \<Rightarrow> nat \<Rightarrow> ext) \<Rightarrow> nat \<Rightarrow> nat \<Rightarrow> matrix \<Rightarrow> bool" where
  "acotada w n k d \<longleftrightarrow>
     (\<forall>a<n. \<forall>b<n. \<forall>ks. set ks \<subseteq> {..<k} \<longrightarrow> d ! a ! b \<le> peso_camino w a ks b)"

section \<open>Trips that can be evaluated\<close>

text \<open>Trips the route evaluation can run on: non-empty, with destinations of the range.\<close>

definition viajes_validos :: "nat \<Rightarrow> int list list \<Rightarrow> bool" where
  "viajes_validos n vs \<longleftrightarrow> list_all (\<lambda>v. v \<noteq> [] \<and> list_all (en_rango n) v) vs"

text \<open>A trip is infeasible for a leaf when every departure point costs \<open>+infinity\<close>.\<close>

definition inviable :: "matrix \<Rightarrow> int \<Rightarrow> int list \<Rightarrow> int list \<Rightarrow> bool" where
  "inviable m deposito hubs_activos viaje \<longleftrightarrow>
     list_all (\<lambda>p. costo_salida m deposito p viaje = PInf) (deposito # hubs_activos)"

section \<open>Arithmetic of the extended numbers\<close>

lemma ext_plus_simps [simp, code]:
  "Fin x + Fin y = Fin (x + y)" "PInf + b = PInf" "a + PInf = PInf"
  by (simp_all add: plus_ext_def split: ext.splits)

lemma ext_le_simps [simp, code]:
  "Fin x \<le> Fin y \<longleftrightarrow> x \<le> y" "a \<le> PInf \<longleftrightarrow> True" "PInf \<le> Fin y \<longleftrightarrow> False"
  by (simp_all add: less_eq_ext_def split: ext.splits)

lemma ext_less_simps [simp, code]:
  "Fin x < Fin y \<longleftrightarrow> x < y" "Fin x < PInf \<longleftrightarrow> True" "PInf < b \<longleftrightarrow> False"
  by (simp_all add: less_ext_def split: ext.splits)

lemma ext_zero_simps [simp]:
  "Fin x = 0 \<longleftrightarrow> x = 0" "0 = Fin x \<longleftrightarrow> x = 0" "PInf \<noteq> 0" "0 \<noteq> PInf"
  by (auto simp: zero_ext_def)

lemma ext_suma_no_negativa: "(0::ext) \<le> a \<Longrightarrow> 0 \<le> b \<Longrightarrow> 0 \<le> a + b"
  by (cases a; cases b) (simp_all add: zero_ext_def)

lemma ext_le_suma: "(0::ext) \<le> c \<Longrightarrow> a \<le> a + c"
  by (cases a; cases c) (simp_all add: zero_ext_def)

section \<open>The worked scenario, evaluated\<close>

text \<open>
  C1. On the fixture (four nodes, depot 0, edges (0,1,5), (1,2,5), (2,3,5), (0,3,9), hub 1
  of cost 1, capacity 10, one package for node 2 and one for node 3) the distance matrix
  is the one of the shortest paths, the leaf without hubs costs 24 (route from the depot),
  and the solver returns hub 1 as the only active hub with total cost 20: distance 19
  plus activation cost 1.
\<close>

theorem escenario_hub_1_costo_20:
  "floyd_warshall aristas_ejemplo 4 = Inr matriz_ejemplo \<and>
   hoja datos_ejemplo matriz_ejemplo (paquetes_por_destino (paquetes datos_ejemplo)) [] 0
       mejor_inicial =
     Inr \<lparr>mejor_costo = Fin 24, mejor_hubs = [], mejor_ruta = [0, 0, 2, 3, 0],
          mejor_distancia = Fin 24\<rparr> \<and>
   calcular_mejor_camino datos_ejemplo matriz_ejemplo =
     Inr \<lparr>ruta = [0, 1, 2, 3, 0], hubs_elegidos = [1], costo_total = Fin 20,
          distancia = Fin 19, costo_solo_hubs = Some (Fin 1)\<rparr>"
  by code_simp

section \<open>The grouping of destinations into trips\<close>

text \<open>
  C3. The claim that every trip is non-empty fails on the code: with capacity 10 and a
  first destination (node 2) of demand 11 the grouping loop closes the still empty
  current trip, so the partition is \<open>[[], [2]]\<close>, and the route evaluation of the solver
  then raises IndexError on \<open>viaje_ordenado[0]\<close>.
\<close>

theorem viaje_vacio_si_primer_destino_excede:
  "paquetes_por_destino (paquetes datos_sobrecarga) = [(2, 11)] \<and>
   viajes_de (capacidad_camion datos_sobrecarga) [(2, 11)] = [[], [2]] \<and>
   calcular_mejor_camino datos_sobrecarga matriz_ejemplo = Inl IndexError"
  by code_simp

section \<open>The search without packages\<close>

lemma map_of_clave_de_lista:
  "i < length xs \<Longrightarrow> \<exists>c. map_of xs (fst (xs ! i)) = Some c \<and> (fst (xs ! i), c) \<in> set xs"
proof -
  assume "i < length xs"
  then have "fst (xs ! i) \<in> fst ` set xs" by simp
  then obtain c where "map_of xs (fst (xs ! i)) = Some c"
    by (cases "map_of xs (fst (xs ! i))") (auto simp: map_of_eq_None_iff)
  then show ?thesis by (auto dest: map_of_SomeD)
qed

lemma probar_en_hoja:
  "probar_combinaciones dt m ppd (length (hubs dt)) ha ca b = hoja dt m ppd ha ca b"
  by (subst probar_combinaciones.simps) simp

lemma probar_paso:
  "indice < length (hubs dt) \<Longrightarrow>
   probar_combinaciones dt m ppd indice ha ca b =
     (case probar_combinaciones dt m ppd (Suc indice) ha ca b of
        Inl e \<Rightarrow> Inl e
      | Inr b1 \<Rightarrow>
          (case map_of (hubs dt) (fst (hubs dt ! indice)) of None \<Rightarrow> Inl KeyError
           | Some c \<Rightarrow>
               probar_combinaciones dt m ppd (Suc indice) (ha @ [fst (hubs dt ! indice)])
                 (ca + c) b1))"
  by (subst probar_combinaciones.simps) (simp add: Let_def cong: sum.case_cong option.case_cong)

lemma hoja_sin_viajes:
  "hoja dt m [] ha ca b =
     Inr (if ca < mejor_costo b
          then \<lparr>mejor_costo = ca, mejor_hubs = ha, mejor_ruta = [deposito_id dt],
                mejor_distancia = 0\<rparr>
          else b)"
  by (simp add: hoja_def viajes_de_def)

lemma probar_sin_paquetes:
  assumes "\<forall>(h, c) \<in> set (hubs dt). 0 \<le> c"
  shows "0 \<le> ca \<Longrightarrow> indice \<le> length (hubs dt) \<Longrightarrow>
    probar_combinaciones dt m [] indice ha ca b =
      Inr (if ca < mejor_costo b
           then \<lparr>mejor_costo = ca, mejor_hubs = ha, mejor_ruta = [deposito_id dt],
                 mejor_distancia = 0\<rparr>
           else b)"
proof (induction "length (hubs dt) - indice" arbitrary: indice ha ca b)
  case 0
  then have "indice = length (hubs dt)" by simp
  then show ?case by (simp add: probar_en_hoja hoja_sin_viajes)
next
  case (Suc k)
  then have lt: "indice < length (hubs dt)" by simp
  obtain c where c: "map_of (hubs dt) (fst (hubs dt ! indice)) = Some c"
    and cin: "(fst (hubs dt ! indice), c) \<in> set (hubs dt)"
    using map_of_clave_de_lista [OF lt] by blast
  from cin assms have c0: "0 \<le> c" by auto
  have k: "k = length (hubs dt) - Suc indice" using Suc.hyps(2) by simp
  have le: "Suc indice \<le> length (hubs dt)" using lt by simp
  have ca': "0 \<le> ca + c" using Suc.prems(1) c0 by (rule ext_suma_no_negativa)
  have mono: "ca \<le> ca + c" using c0 by (rule ext_le_suma)
  note ih1 = Suc.hyps(1) [OF k Suc.prems(1) le]
  note ih2 = Suc.hyps(1) [OF k ca' le]
  show ?case
    using mono by (auto simp: probar_paso [OF lt] ih1 ih2 c)
qed

text \<open>
  C7 (as amended). With zero packages and hub activation costs that are all non-negative,
  the solver returns total distance 0, total cost 0, no active hub, and the route
  \<open>[deposito]\<close>: the route starts as the depot anchor alone and no trip adds a
  waypoint to it.
\<close>

theorem sin_paquetes_ruta_solo_deposito:
  assumes "paquetes dt = []" and "\<forall>(h, c) \<in> set (hubs dt). 0 \<le> c"
  shows "calcular_mejor_camino dt m =
     Inr \<lparr>ruta = [deposito_id dt], hubs_elegidos = [], costo_total = 0, distancia = 0,
          costo_solo_hubs = Some 0\<rparr>"
  using assms(1) probar_sin_paquetes [OF assms(2), of 0 0 m "[]" mejor_inicial]
  by (simp add: calcular_mejor_camino_def paquetes_por_destino_def mejor_inicial_def zero_ext_def)

theorem sin_paquetes_ruta_solo_deposito_witness:
  "paquetes datos_sin_paquetes = [] \<and> list_all (\<lambda>(h, c). 0 \<le> c) (hubs datos_sin_paquetes) \<and>
   calcular_mejor_camino datos_sin_paquetes matriz_ejemplo =
     Inr \<lparr>ruta = [0], hubs_elegidos = [], costo_total = 0, distancia = 0,
          costo_solo_hubs = Some 0\<rparr>"
  using sin_paquetes_ruta_solo_deposito [of datos_sin_paquetes matriz_ejemplo]
  by (simp add: datos_sin_paquetes_def zero_ext_def)

text \<open>
  The claim as written asks for the route \<open>[deposito, deposito]\<close>; on the scenario
  without packages the solver returns \<open>[0]\<close>.
\<close>

theorem sin_paquetes_ruta_no_es_deposito_deposito:
  "calcular_mejor_camino datos_sin_paquetes matriz_ejemplo =
     Inr \<lparr>ruta = [0], hubs_elegidos = [], costo_total = Fin 0, distancia = Fin 0,
          costo_solo_hubs = Some (Fin 0)\<rparr> \<and>
   [0] \<noteq> [deposito_id datos_sin_paquetes, deposito_id datos_sin_paquetes]"
  by code_simp

section \<open>The partition does not depend on the hub choice\<close>

lemma hoja_es_hoja_con_viajes:
  "hoja dt m ppd ha ca b = hoja_con_viajes dt m (viajes_de (capacidad_camion dt) ppd) ha ca b"
  by (simp add: hoja_def hoja_con_viajes_def)

lemma probar_es_buscar_con_viajes:
  "probar_combinaciones dt m ppd indice ha ca b =
   buscar_con_viajes dt m (viajes_de (capacidad_camion dt) ppd) indice ha ca b"
proof (induction "length (hubs dt) - indice" arbitrary: indice ha ca b)
  case 0
  then show ?case
    by (subst probar_combinaciones.simps, subst buscar_con_viajes.simps)
       (simp add: hoja_es_hoja_con_viajes)
next
  case (Suc k)
  then have lt: "indice < length (hubs dt)" by simp
  have k: "k = length (hubs dt) - Suc indice" using Suc.hyps(2) by simp
  note ih = Suc.hyps(1) [OF k]
  show ?case
    using lt
    by (subst probar_combinaciones.simps, subst buscar_con_viajes.simps)
       (simp add: ih Let_def cong: sum.case_cong option.case_cong)
qed

text \<open>
  C4. The partition used at a leaf is \<open>viajes_de\<close> of the capacity and the demand map
  only; neither the index nor the active hubs nor the activation cost enter it. Hence the
  solver, which rebuilds the partition in every leaf, returns exactly what the search
  returns that takes the partition computed once up front: every leaf uses that
  partition.
\<close>

theorem particion_independiente_de_hubs:
  "calcular_mejor_camino dt m = resolver_con_particion_previa dt m"
  by (simp add: calcular_mejor_camino_def resolver_con_particion_previa_def
      probar_es_buscar_con_viajes)

section \<open>The search as the evaluation of its leaves\<close>

lemma evaluar_hojas_append:
  "evaluar_hojas dt m ppd (xs @ ys) b =
     (case evaluar_hojas dt m ppd xs b of Inl e \<Rightarrow> Inl e
      | Inr b1 \<Rightarrow> evaluar_hojas dt m ppd ys b1)"
  by (induction xs arbitrary: b) (auto split: sum.splits)

lemma probar_es_evaluar_hojas:
  "indice \<le> length (hubs dt) \<Longrightarrow>
   probar_combinaciones dt m ppd indice ha ca b =
     evaluar_hojas dt m ppd (hojas_desde (hubs dt) (drop indice (hubs dt)) ha ca) b"
proof (induction "length (hubs dt) - indice" arbitrary: indice ha ca b)
  case 0
  then have "indice = length (hubs dt)" by simp
  then show ?case by (simp add: probar_en_hoja split: sum.splits)
next
  case (Suc k)
  then have lt: "indice < length (hubs dt)" by simp
  obtain h c0 where hc: "hubs dt ! indice = (h, c0)" by (cases "hubs dt ! indice")
  obtain c where c: "map_of (hubs dt) h = Some c"
    using map_of_clave_de_lista [OF lt] hc by auto
  have k: "k = length (hubs dt) - Suc indice" using Suc.hyps(2) by simp
  have le: "Suc indice \<le> length (hubs dt)" using lt by simp
  note ih = Suc.hyps(1) [OF k le]
  have d: "drop indice (hubs dt) = (h, c0) # drop (Suc indice) (hubs dt)"
    using lt hc by (metis Cons_nth_drop_Suc)
  show ?case
    by (simp add: probar_paso [OF lt] d hc c ih evaluar_hojas_append
        cong: sum.case_cong)
qed

section \<open>Updates of the best result\<close>

lemma hoja_actualiza:
  assumes "hoja dt m ppd ha ca b = Inr b1"
  shows "\<exists>c. costo_de_hoja dt m ppd (ha, ca) = Inr c \<and>
           (if c < mejor_costo b
            then mejor_costo b1 = c \<and> mejor_hubs b1 = ha else b1 = b)"
proof (cases "recorrer m (deposito_id dt) ha (viajes_de (capacidad_camion dt) ppd)
                (0, [deposito_id dt])")
  case (Inl e)
  with assms show ?thesis by (simp add: hoja_def)
next
  case (Inr p)
  obtain d r where p: "p = (d, r)" by (cases p)
  have c: "costo_de_hoja dt m ppd (ha, ca) = Inr (d + ca)"
    using Inr p by (simp add: costo_de_hoja_def)
  from assms Inr p have "(if d + ca < mejor_costo b
            then mejor_costo b1 = d + ca \<and> mejor_hubs b1 = ha else b1 = b)"
    by (auto simp: hoja_def Let_def split: if_splits)
  with c show ?thesis by blast
qed

lemma evaluar_hojas_primer_minimo:
  assumes "evaluar_hojas dt m ppd L b = Inr b1"
  shows "(\<forall>h \<in> set L. \<exists>c. costo_de_hoja dt m ppd h = Inr c \<and> mejor_costo b1 \<le> c) \<and>
         (b1 = b \<or>
          (\<exists>pre h post. L = pre @ h # post \<and>
             costo_de_hoja dt m ppd h = Inr (mejor_costo b1) \<and>
             mejor_hubs b1 = fst h \<and> mejor_costo b1 < mejor_costo b \<and>
             (\<forall>g \<in> set pre. \<exists>c. costo_de_hoja dt m ppd g = Inr c \<and> mejor_costo b1 < c)))"
  using assms
proof (induction L arbitrary: b)
  case Nil
  then show ?case by simp
next
  case (Cons x L)
  obtain ha ca where x: "x = (ha, ca)" by (cases x)
  from Cons.prems x obtain b0 where b0: "hoja dt m ppd ha ca b = Inr b0"
    and rest: "evaluar_hojas dt m ppd L b0 = Inr b1"
    by (auto split: sum.splits)
  from hoja_actualiza [OF b0] obtain c where c: "costo_de_hoja dt m ppd x = Inr c"
    and upd: "if c < mejor_costo b then mejor_costo b0 = c \<and> mejor_hubs b0 = ha else b0 = b"
    using x by auto
  note ih = Cons.IH [OF rest]
  from ih have all: "\<forall>h \<in> set L. \<exists>c. costo_de_hoja dt m ppd h = Inr c \<and> mejor_costo b1 \<le> c"
    by blast
  from ih have alt: "b1 = b0 \<or>
          (\<exists>pre h post. L = pre @ h # post \<and>
             costo_de_hoja dt m ppd h = Inr (mejor_costo b1) \<and>
             mejor_hubs b1 = fst h \<and> mejor_costo b1 < mejor_costo b0 \<and>
             (\<forall>g \<in> set pre. \<exists>c. costo_de_hoja dt m ppd g = Inr c \<and> mejor_costo b1 < c))"
    by blast
  have le0: "mejor_costo b0 \<le> mejor_costo b" and lec: "mejor_costo b0 \<le> c"
    using upd by (auto split: if_splits)
  have le1: "mejor_costo b1 \<le> mejor_costo b0"
    using alt by auto
  have first: "\<exists>c. costo_de_hoja dt m ppd x = Inr c \<and> mejor_costo b1 \<le> c"
    using c lec le1 by auto
  show ?case
  proof (intro conjI)
    show "\<forall>h \<in> set (x # L). \<exists>c. costo_de_hoja dt m ppd h = Inr c \<and> mejor_costo b1 \<le> c"
      using first all by simp
    show "b1 = b \<or>
          (\<exists>pre h post. x # L = pre @ h # post \<and>
             costo_de_hoja dt m ppd h = Inr (mejor_costo b1) \<and>
             mejor_hubs b1 = fst h \<and> mejor_costo b1 < mejor_costo b \<and>
             (\<forall>g \<in> set pre. \<exists>c. costo_de_hoja dt m ppd g = Inr c \<and> mejor_costo b1 < c))"
      using alt
    proof
      assume eq: "b1 = b0"
      show ?thesis
      proof (cases "c < mejor_costo b")
        case True
        with upd eq c x have "x # L = [] @ x # L \<and>
             costo_de_hoja dt m ppd x = Inr (mejor_costo b1) \<and>
             mejor_hubs b1 = fst x \<and> mejor_costo b1 < mejor_costo b \<and>
             (\<forall>g \<in> set []. \<exists>c. costo_de_hoja dt m ppd g = Inr c \<and> mejor_costo b1 < c)"
          by simp
        then show ?thesis by blast
      next
        case False
        with upd eq show ?thesis by simp
      qed
    next
      assume "\<exists>pre h post. L = pre @ h # post \<and>
             costo_de_hoja dt m ppd h = Inr (mejor_costo b1) \<and>
             mejor_hubs b1 = fst h \<and> mejor_costo b1 < mejor_costo b0 \<and>
             (\<forall>g \<in> set pre. \<exists>c. costo_de_hoja dt m ppd g = Inr c \<and> mejor_costo b1 < c)"
      then obtain pre h post where L: "L = pre @ h # post"
        and ch: "costo_de_hoja dt m ppd h = Inr (mejor_costo b1)"
        and hh: "mejor_hubs b1 = fst h" and lt: "mejor_costo b1 < mejor_costo b0"
        and pre: "\<forall>g \<in> set pre. \<exists>c. costo_de_hoja dt m ppd g = Inr c \<and> mejor_costo b1 < c"
        by blast
      have "mejor_costo b1 < c" using lt lec by simp
      with c pre have pre': "\<forall>g \<in> set (x # pre).
          \<exists>c. costo_de_hoja dt m ppd g = Inr c \<and> mejor_costo b1 < c"
        by simp
      have "x # L = (x # pre) @ h # post" using L by simp
      moreover have "mejor_costo b1 < mejor_costo b" using lt le0 by simp
      ultimately show ?thesis using ch hh pre' by blast
    qed
  qed
qed

lemma probar_no_sube:
  assumes "probar_combinaciones dt m ppd indice ha ca b = Inr b1"
  shows "mejor_costo b1 \<le> mejor_costo b"
proof (cases "indice \<le> length (hubs dt)")
  case True
  from assms have "evaluar_hojas dt m ppd
      (hojas_desde (hubs dt) (drop indice (hubs dt)) ha ca) b = Inr b1"
    by (simp add: probar_es_evaluar_hojas [OF True])
  from evaluar_hojas_primer_minimo [OF this] show ?thesis by auto
next
  case False
  then have "probar_combinaciones dt m ppd indice ha ca b = Inl IndexError"
    by (subst probar_combinaciones.simps) simp
  with assms show ?thesis by simp
qed

text \<open>
  C6. A leaf replaces the best result only when its total cost (distance plus activation
  cost) is strictly smaller than the stored best cost, and otherwise leaves the record as
  it is; a search started from any stored result never ends with a larger best cost; and
  the search from the initial record ends either with that record untouched or with the
  first leaf, in the exclude-before-include order of \<open>hojas_desde\<close>, whose cost equals
  the final best cost, every earlier leaf being strictly more expensive and no leaf
  cheaper.
\<close>

theorem mejor_solo_baja_y_primer_optimo:
  "(hoja dt m ppd ha ca b = Inr b1 \<longrightarrow>
      (\<exists>c. costo_de_hoja dt m ppd (ha, ca) = Inr c \<and>
           (if c < mejor_costo b then mejor_costo b1 = c \<and> mejor_hubs b1 = ha else b1 = b))) \<and>
   (probar_combinaciones dt m ppd indice ha ca b = Inr b2 \<longrightarrow>
      mejor_costo b2 \<le> mejor_costo b) \<and>
   (probar_combinaciones dt m ppd 0 [] 0 mejor_inicial = Inr b3 \<longrightarrow>
      (\<forall>h \<in> set (hojas_desde (hubs dt) (hubs dt) [] 0).
          \<exists>c. costo_de_hoja dt m ppd h = Inr c \<and> mejor_costo b3 \<le> c) \<and>
      (b3 = mejor_inicial \<or>
       (\<exists>pre h post. hojas_desde (hubs dt) (hubs dt) [] 0 = pre @ h # post \<and>
          costo_de_hoja dt m ppd h = Inr (mejor_costo b3) \<and> mejor_hubs b3 = fst h \<and>
          (\<forall>g \<in> set pre. \<exists>c. costo_de_hoja dt m ppd g = Inr c \<and> mejor_costo b3 < c))))"
proof (intro conjI impI)
  assume "hoja dt m ppd ha ca b = Inr b1"
  then show "\<exists>c. costo_de_hoja dt m ppd (ha, ca) = Inr c \<and>
           (if c < mejor_costo b then mejor_costo b1 = c \<and> mejor_hubs b1 = ha else b1 = b)"
    by (rule hoja_actualiza)
next
  assume "probar_combinaciones dt m ppd indice ha ca b = Inr b2"
  then show "mejor_costo b2 \<le> mejor_costo b" by (rule probar_no_sube)
next
  assume "probar_combinaciones dt m ppd 0 [] 0 mejor_inicial = Inr b3"
  then have e: "evaluar_hojas dt m ppd (hojas_desde (hubs dt) (hubs dt) [] 0) mejor_inicial
      = Inr b3"
    by (simp add: probar_es_evaluar_hojas)
  note r = evaluar_hojas_primer_minimo [OF e]
  from r show "\<forall>h \<in> set (hojas_desde (hubs dt) (hubs dt) [] 0).
          \<exists>c. costo_de_hoja dt m ppd h = Inr c \<and> mejor_costo b3 \<le> c"
    by blast
  from r show "b3 = mejor_inicial \<or>
       (\<exists>pre h post. hojas_desde (hubs dt) (hubs dt) [] 0 = pre @ h # post \<and>
          costo_de_hoja dt m ppd h = Inr (mejor_costo b3) \<and> mejor_hubs b3 = fst h \<and>
          (\<forall>g \<in> set pre. \<exists>c. costo_de_hoja dt m ppd g = Inr c \<and> mejor_costo b3 < c))"
    by blast
qed

theorem mejor_solo_baja_y_primer_optimo_witness:
  "hoja datos_ejemplo matriz_ejemplo [(2, 1), (3, 1)] [] 0 mejor_inicial =
     Inr mejor_sin_hubs_ejemplo \<and>
   probar_combinaciones datos_ejemplo matriz_ejemplo [(2, 1), (3, 1)] 0 [] 0 mejor_inicial =
     Inr mejor_ejemplo \<and>
   costo_de_hoja datos_ejemplo matriz_ejemplo [(2, 1), (3, 1)] ([], 0) = Inr (Fin 24) \<and>
   mejor_costo mejor_ejemplo \<le> mejor_costo mejor_inicial \<and>
   (\<exists>pre h post. hojas_desde (hubs datos_ejemplo) (hubs datos_ejemplo) [] 0 = pre @ h # post \<and>
      costo_de_hoja datos_ejemplo matriz_ejemplo [(2, 1), (3, 1)] h = Inr (Fin 20) \<and>
      [1] = fst h \<and>
      (\<forall>g \<in> set pre. \<exists>c. costo_de_hoja datos_ejemplo matriz_ejemplo [(2, 1), (3, 1)] g = Inr c \<and>
          Fin 20 < c))"
proof -
  have h: "hoja datos_ejemplo matriz_ejemplo [(2, 1), (3, 1)] [] 0 mejor_inicial =
     Inr mejor_sin_hubs_ejemplo"
    by code_simp
  have p: "probar_combinaciones datos_ejemplo matriz_ejemplo [(2, 1), (3, 1)] 0 [] 0
      mejor_inicial = Inr mejor_ejemplo"
    by code_simp
  have ne: "mejor_ejemplo \<noteq> mejor_inicial"
    by (simp add: mejor_ejemplo_def mejor_inicial_def)
  have v: "mejor_costo mejor_ejemplo = Fin 20" "mejor_hubs mejor_ejemplo = [1]"
    "mejor_costo mejor_inicial = PInf" "mejor_costo mejor_sin_hubs_ejemplo = Fin 24"
    by (simp_all add: mejor_ejemplo_def mejor_inicial_def mejor_sin_hubs_ejemplo_def)
  note t = mejor_solo_baja_y_primer_optimo [of datos_ejemplo matriz_ejemplo "[(2, 1), (3, 1)]"
      "[]" 0 mejor_inicial mejor_sin_hubs_ejemplo 0 mejor_ejemplo mejor_ejemplo]
  have ne24: "mejor_sin_hubs_ejemplo \<noteq> mejor_inicial"
    by (simp add: mejor_sin_hubs_ejemplo_def mejor_inicial_def)
  from t h obtain c where c1: "costo_de_hoja datos_ejemplo matriz_ejemplo [(2, 1), (3, 1)] ([], 0) = Inr c"
    and c2: "if c < mejor_costo mejor_inicial
         then mejor_costo mejor_sin_hubs_ejemplo = c \<and> mejor_hubs mejor_sin_hubs_ejemplo = []
         else mejor_sin_hubs_ejemplo = mejor_inicial"
    by blast
  from c2 ne24 have "c = Fin 24" by (cases "c < mejor_costo mejor_inicial") (simp_all add: v)
  with c1 have c24: "costo_de_hoja datos_ejemplo matriz_ejemplo [(2, 1), (3, 1)] ([], 0) = Inr (Fin 24)"
    by simp
  from t p have le: "mejor_costo mejor_ejemplo \<le> mejor_costo mejor_inicial" by blast
  from t p ne have "\<exists>pre h post. hojas_desde (hubs datos_ejemplo) (hubs datos_ejemplo) [] 0 = pre @ h # post \<and>
      costo_de_hoja datos_ejemplo matriz_ejemplo [(2, 1), (3, 1)] h = Inr (mejor_costo mejor_ejemplo) \<and>
      mejor_hubs mejor_ejemplo = fst h \<and>
      (\<forall>g \<in> set pre. \<exists>c. costo_de_hoja datos_ejemplo matriz_ejemplo [(2, 1), (3, 1)] g = Inr c \<and>
          mejor_costo mejor_ejemplo < c)"
    by blast
  then have ex: "\<exists>pre h post. hojas_desde (hubs datos_ejemplo) (hubs datos_ejemplo) [] 0 = pre @ h # post \<and>
      costo_de_hoja datos_ejemplo matriz_ejemplo [(2, 1), (3, 1)] h = Inr (Fin 20) \<and>
      [1] = fst h \<and>
      (\<forall>g \<in> set pre. \<exists>c. costo_de_hoja datos_ejemplo matriz_ejemplo [(2, 1), (3, 1)] g = Inr c \<and>
          Fin 20 < c)"
    by (simp only: v)
  from h p c24 le ex show ?thesis by blast
qed

section \<open>A search whose every leaf is infinitely costly\<close>

lemma hoja_costo_infinito:
  assumes "costo_de_hoja dt m ppd (ha, ca) = Inr PInf"
  shows "hoja dt m ppd ha ca b = Inr b"
proof (cases "recorrer m (deposito_id dt) ha (viajes_de (capacidad_camion dt) ppd)
                (0, [deposito_id dt])")
  case (Inl e)
  with assms show ?thesis by (simp add: costo_de_hoja_def)
next
  case (Inr p)
  obtain d r where p: "p = (d, r)" by (cases p)
  from assms Inr p have "d + ca = PInf" by (simp add: costo_de_hoja_def)
  with Inr p show ?thesis by (simp add: hoja_def)
qed

lemma evaluar_hojas_costo_infinito:
  "\<forall>h \<in> set L. costo_de_hoja dt m ppd h = Inr PInf \<Longrightarrow> evaluar_hojas dt m ppd L b = Inr b"
proof (induction L)
  case Nil
  then show ?case by simp
next
  case (Cons x L)
  obtain ha ca where x: "x = (ha, ca)" by (cases x)
  from Cons.prems x have "hoja dt m ppd ha ca b = Inr b"
    by (simp add: hoja_costo_infinito)
  with Cons x show ?case by simp
qed

text \<open>
  C10. If every leaf of the search (every hub subset) computes the total cost
  \<open>+infinity\<close>, the best-result record is never replaced, and the solver returns the
  initial values: total cost \<open>+infinity\<close>, the empty route, the empty list of active
  hubs, distance 0, and \<open>+infinity\<close> as the hub-cost component. The route returned is
  empty, not a sequence anchored at the depot.
\<close>

theorem todo_infinito_devuelve_valores_iniciales:
  assumes "\<forall>h \<in> set (hojas_desde (hubs dt) (hubs dt) [] 0).
             costo_de_hoja dt m (paquetes_por_destino (paquetes dt)) h = Inr PInf"
  shows "calcular_mejor_camino dt m =
     Inr \<lparr>ruta = [], hubs_elegidos = [], costo_total = PInf, distancia = 0,
          costo_solo_hubs = Some PInf\<rparr>"
proof -
  have "probar_combinaciones dt m (paquetes_por_destino (paquetes dt)) 0 [] 0 mejor_inicial =
      Inr mejor_inicial"
    using evaluar_hojas_costo_infinito [OF assms] by (simp add: probar_es_evaluar_hojas)
  then show ?thesis
    by (simp add: calcular_mejor_camino_def mejor_inicial_def zero_ext_def)
qed

theorem todo_infinito_devuelve_valores_iniciales_witness:
  "floyd_warshall [] 2 = Inr matriz_desconectada \<and>
   hojas_desde (hubs datos_desconectado) (hubs datos_desconectado) [] 0 =
     [([], 0), ([1], Fin 1)] \<and>
   costo_de_hoja datos_desconectado matriz_desconectada [(1, 1)] ([], 0) = Inr PInf \<and>
   costo_de_hoja datos_desconectado matriz_desconectada [(1, 1)] ([1], Fin 1) = Inr PInf \<and>
   calcular_mejor_camino datos_desconectado matriz_desconectada =
     Inr \<lparr>ruta = [], hubs_elegidos = [], costo_total = PInf, distancia = 0,
          costo_solo_hubs = Some PInf\<rparr>"
proof -
  have fw: "floyd_warshall [] 2 = Inr matriz_desconectada" by code_simp
  have hs: "hojas_desde (hubs datos_desconectado) (hubs datos_desconectado) [] 0 =
     [([], 0), ([1], Fin 1)]"
    by code_simp
  have ppd: "paquetes_por_destino (paquetes datos_desconectado) = [(1, 1)]" by code_simp
  have c1: "costo_de_hoja datos_desconectado matriz_desconectada [(1, 1)] ([], 0) = Inr PInf"
    by code_simp
  have c2: "costo_de_hoja datos_desconectado matriz_desconectada [(1, 1)] ([1], Fin 1) = Inr PInf"
    by code_simp
  have "calcular_mejor_camino datos_desconectado matriz_desconectada =
     Inr \<lparr>ruta = [], hubs_elegidos = [], costo_total = PInf, distancia = 0,
          costo_solo_hubs = Some PInf\<rparr>"
    using todo_infinito_devuelve_valores_iniciales [of datos_desconectado matriz_desconectada]
    by (simp add: hs ppd c1 c2)
  with fw hs c1 c2 show ?thesis by blast
qed

section \<open>Number of leaves and depth of the search\<close>





lemma hubs_de_hojas_desde:
  "\<forall>x \<in> set r. map_of H (fst x) \<noteq> None \<Longrightarrow>
   fst ` set (hojas_desde H r ha ca) = (\<lambda>s. ha @ s) ` set (subseqs (map fst r))"
proof (induction r arbitrary: ha ca)
  case Nil
  then show ?case by simp
next
  case (Cons x r)
  obtain h c0 where x: "x = (h, c0)" by (cases x)
  from Cons.prems x obtain c where c: "map_of H h = Some c" by auto
  from Cons.prems have r: "\<forall>x \<in> set r. map_of H (fst x) \<noteq> None" by simp
  have "(\<lambda>s. (ha @ [h]) @ s) ` set (subseqs (map fst r)) =
        (\<lambda>s. ha @ s) ` (Cons h ` set (subseqs (map fst r)))"
    by (simp add: image_image)
  then show ?case
    by (simp add: x c Cons.IH [OF r] image_Un Let_def Un_commute del: append_assoc)
qed

lemma claves_presentes: "\<forall>x \<in> set H. map_of H (fst x) \<noteq> None"
  by (auto simp: map_of_eq_None_iff)





section \<open>The departure point of a trip\<close>

lemma py_index_en_rango: "en_rango n i \<Longrightarrow> py_index n i = Inr (nat i)"
  by (simp add: en_rango_def py_index_def)

lemma mget_en_rango:
  assumes "cuadrada n m" "en_rango n i" "en_rango n j"
  shows "mget m i j = Inr (entrada m i j)"
proof -
  from assms(2) have i: "nat i < n" by (auto simp: en_rango_def)
  with assms(1) have "length (m ! nat i) = n"
    by (simp add: cuadrada_def list_all_length)
  with assms show ?thesis
    by (simp add: mget_def cuadrada_def py_index_en_rango entrada_def)
qed

lemma tramos_en_rango:
  "cuadrada n m \<Longrightarrow> list_all (en_rango n) v \<Longrightarrow>
   tramos m v acc = Inr (acc + sum_list (map2 (entrada m) (butlast v) (tl v)))"
proof (induction m v acc rule: tramos.induct)
  case (1 m x y r acc)
  then have g: "mget m x y = Inr (entrada m x y)"
    by (simp add: mget_en_rango)
  from 1 have "tramos m (y # r) (acc + entrada m x y) =
      Inr (acc + entrada m x y + sum_list (map2 (entrada m) (butlast (y # r)) (tl (y # r))))"
    using g by simp
  then show ?case using g by (simp add: add.assoc)
qed simp_all

lemma distancia_viaje_en_rango:
  assumes "cuadrada n m" "en_rango n dep" "en_rango n p" "viaje \<noteq> []"
    "list_all (en_rango n) viaje"
  shows "distancia_viaje m dep p viaje = Inr (costo_salida m dep p viaje)"
proof -
  from assms(4) obtain x r where v: "viaje = x # r" by (cases viaje) auto
  with assms(5) have x: "en_rango n x" by simp
  from assms(4,5) have l: "en_rango n (last viaje)"
    by (simp add: list_all_iff)
  show ?thesis
    using v mget_en_rango [OF assms(1) assms(3) x] tramos_en_rango [OF assms(1) assms(5)]
      mget_en_rango [OF assms(1) l assms(2)]
    by (simp add: distancia_viaje_def costo_salida_def)
qed

lemma probar_inicios_primer_minimo:
  assumes "cuadrada n m" "en_rango n dep" "viaje \<noteq> []" "list_all (en_rango n) viaje"
  shows "list_all (en_rango n) ps \<Longrightarrow>
    \<exists>menor ini. probar_inicios m dep viaje ps (menor0, ini0) = Inr (menor, ini) \<and>
      (\<forall>q \<in> set ps. menor \<le> costo_salida m dep q viaje) \<and> menor \<le> menor0 \<and>
      (menor = menor0 \<and> ini = ini0 \<or>
       (\<exists>pre post. ps = pre @ ini # post \<and> menor = costo_salida m dep ini viaje \<and>
          menor < menor0 \<and> (\<forall>q \<in> set pre. menor < costo_salida m dep q viaje)))"
proof (induction ps arbitrary: menor0 ini0)
  case Nil
  then show ?case by simp
next
  case (Cons p ps)
  let ?c = "costo_salida m dep p viaje"
  from Cons.prems have p: "en_rango n p" and ps: "list_all (en_rango n) ps" by simp_all
  have dv: "distancia_viaje m dep p viaje = Inr ?c"
    by (rule distancia_viaje_en_rango [OF assms(1,2) p assms(3,4)])
  show ?case
  proof (cases "?c < menor0")
    case True
    from Cons.IH [OF ps, of ?c p] obtain menor ini where
      r: "probar_inicios m dep viaje ps (?c, p) = Inr (menor, ini)"
      and all: "\<forall>q \<in> set ps. menor \<le> costo_salida m dep q viaje" and le: "menor \<le> ?c"
      and alt: "menor = ?c \<and> ini = p \<or>
       (\<exists>pre post. ps = pre @ ini # post \<and> menor = costo_salida m dep ini viaje \<and>
          menor < ?c \<and> (\<forall>q \<in> set pre. menor < costo_salida m dep q viaje))"
      by blast
    have r': "probar_inicios m dep viaje (p # ps) (menor0, ini0) = Inr (menor, ini)"
      using dv True r by simp
    have lt0: "menor < menor0" using le True by simp
    have "\<exists>pre post. p # ps = pre @ ini # post \<and> menor = costo_salida m dep ini viaje \<and>
          menor < menor0 \<and> (\<forall>q \<in> set pre. menor < costo_salida m dep q viaje)"
      using alt
    proof
      assume "menor = ?c \<and> ini = p"
      then have "p # ps = [] @ ini # ps \<and> menor = costo_salida m dep ini viaje \<and>
          menor < menor0 \<and> (\<forall>q \<in> set []. menor < costo_salida m dep q viaje)"
        using lt0 by simp
      then show ?thesis by blast
    next
      assume "\<exists>pre post. ps = pre @ ini # post \<and> menor = costo_salida m dep ini viaje \<and>
          menor < ?c \<and> (\<forall>q \<in> set pre. menor < costo_salida m dep q viaje)"
      then obtain pre post where "ps = pre @ ini # post"
        "menor = costo_salida m dep ini viaje" "menor < ?c"
        "\<forall>q \<in> set pre. menor < costo_salida m dep q viaje"
        by blast
      then have "p # ps = (p # pre) @ ini # post \<and> menor = costo_salida m dep ini viaje \<and>
          menor < menor0 \<and> (\<forall>q \<in> set (p # pre). menor < costo_salida m dep q viaje)"
        using lt0 by simp
      then show ?thesis by blast
    qed
    with r' all le lt0 show ?thesis by auto
  next
    case False
    from Cons.IH [OF ps, of menor0 ini0] obtain menor ini where
      r: "probar_inicios m dep viaje ps (menor0, ini0) = Inr (menor, ini)"
      and all: "\<forall>q \<in> set ps. menor \<le> costo_salida m dep q viaje" and le: "menor \<le> menor0"
      and alt: "menor = menor0 \<and> ini = ini0 \<or>
       (\<exists>pre post. ps = pre @ ini # post \<and> menor = costo_salida m dep ini viaje \<and>
          menor < menor0 \<and> (\<forall>q \<in> set pre. menor < costo_salida m dep q viaje))"
      by blast
    have r': "probar_inicios m dep viaje (p # ps) (menor0, ini0) = Inr (menor, ini)"
      using dv False r by simp
    have lec: "menor \<le> ?c" using le False by simp
    have "menor = menor0 \<and> ini = ini0 \<or>
       (\<exists>pre post. p # ps = pre @ ini # post \<and> menor = costo_salida m dep ini viaje \<and>
          menor < menor0 \<and> (\<forall>q \<in> set pre. menor < costo_salida m dep q viaje))"
      using alt
    proof
      assume "menor = menor0 \<and> ini = ini0"
      then show ?thesis by simp
    next
      assume "\<exists>pre post. ps = pre @ ini # post \<and> menor = costo_salida m dep ini viaje \<and>
          menor < menor0 \<and> (\<forall>q \<in> set pre. menor < costo_salida m dep q viaje)"
      then obtain pre post where "ps = pre @ ini # post"
        "menor = costo_salida m dep ini viaje" "menor < menor0"
        "\<forall>q \<in> set pre. menor < costo_salida m dep q viaje"
        by blast
      moreover from this False have "menor < ?c" by simp
      ultimately have "p # ps = (p # pre) @ ini # post \<and>
          menor = costo_salida m dep ini viaje \<and>
          menor < menor0 \<and> (\<forall>q \<in> set (p # pre). menor < costo_salida m dep q viaje)"
        by simp
      then show ?thesis by blast
    qed
    with r' all le lec show ?thesis by auto
  qed
qed

text \<open>
  C5. The loop over the trips (\<open>recorrer\<close>, lines 233 to 255 of the source) handles a
  trip as follows, for a square distance matrix, a non-empty trip and identifiers of the
  declared range. Every candidate of \<open>[deposito] + hubs_activos\<close> gets the cost
  \<open>dist[start, trip[0]]\<close> plus the distances between consecutive destinations plus
  \<open>dist[trip[last], deposito]\<close>. The loop then goes on to the remaining trips with that
  cost added to the total distance and with the departure point, the trip and the depot
  appended to the route, where the departure point is the first candidate of the list
  \<open>deposito, hub\<^sub>1, hub\<^sub>2, ...\<close>, in this order, whose cost is the least: every candidate
  before it is strictly dearer and none is cheaper. So a candidate replaces the current
  one only when strictly cheaper, and on a tie the depot wins over a hub and an earlier
  hub over a later one.
\<close>

theorem salida_mas_barata_primera:
  assumes "cuadrada n m" "en_rango n dep" "list_all (en_rango n) ha" "viaje \<noteq> []"
    "list_all (en_rango n) viaje"
  shows "(\<forall>q \<in> set (dep # ha). distancia_viaje m dep q viaje = Inr (costo_salida m dep q viaje)) \<and>
    (\<exists>pre ini post. dep # ha = pre @ ini # post \<and>
       recorrer m dep ha (viaje # vs) (dist0, ruta0) =
         recorrer m dep ha vs
           (dist0 + costo_salida m dep ini viaje, ruta0 @ [ini] @ viaje @ [dep]) \<and>
       (\<forall>q \<in> set pre. costo_salida m dep ini viaje < costo_salida m dep q viaje) \<and>
       (\<forall>q \<in> set (dep # ha). costo_salida m dep ini viaje \<le> costo_salida m dep q viaje))"
proof
  show "\<forall>q \<in> set (dep # ha). distancia_viaje m dep q viaje = Inr (costo_salida m dep q viaje)"
    using assms by (auto simp: list_all_iff intro: distancia_viaje_en_rango)
next
  have ps: "list_all (en_rango n) (dep # ha)" using assms(2,3) by simp
  from probar_inicios_primer_minimo [OF assms(1,2,4,5) ps, of PInf dep]
  obtain menor ini where
    r: "probar_inicios m dep viaje (dep # ha) (PInf, dep) = Inr (menor, ini)"
    and all: "\<forall>q \<in> set (dep # ha). menor \<le> costo_salida m dep q viaje"
    and alt: "menor = PInf \<and> ini = dep \<or>
       (\<exists>pre post. dep # ha = pre @ ini # post \<and> menor = costo_salida m dep ini viaje \<and>
          menor < PInf \<and> (\<forall>q \<in> set pre. menor < costo_salida m dep q viaje))"
    by blast
  have paso: "recorrer m dep ha (viaje # vs) (dist0, ruta0) =
      recorrer m dep ha vs (dist0 + menor, ruta0 @ [ini] @ viaje @ [dep])"
    using r by simp
  from alt show "\<exists>pre ini post. dep # ha = pre @ ini # post \<and>
       recorrer m dep ha (viaje # vs) (dist0, ruta0) =
         recorrer m dep ha vs
           (dist0 + costo_salida m dep ini viaje, ruta0 @ [ini] @ viaje @ [dep]) \<and>
       (\<forall>q \<in> set pre. costo_salida m dep ini viaje < costo_salida m dep q viaje) \<and>
       (\<forall>q \<in> set (dep # ha). costo_salida m dep ini viaje \<le> costo_salida m dep q viaje)"
  proof
    assume a: "menor = PInf \<and> ini = dep"
    with all have "PInf \<le> costo_salida m dep dep viaje" by simp
    then have c: "costo_salida m dep dep viaje = PInf"
      by (cases "costo_salida m dep dep viaje") simp_all
    have "dep # ha = [] @ dep # ha \<and>
       recorrer m dep ha (viaje # vs) (dist0, ruta0) =
         recorrer m dep ha vs
           (dist0 + costo_salida m dep dep viaje, ruta0 @ [dep] @ viaje @ [dep]) \<and>
       (\<forall>q \<in> set []. costo_salida m dep dep viaje < costo_salida m dep q viaje) \<and>
       (\<forall>q \<in> set (dep # ha). costo_salida m dep dep viaje \<le> costo_salida m dep q viaje)"
      using paso a all c by simp
    then show ?thesis by blast
  next
    assume "\<exists>pre post. dep # ha = pre @ ini # post \<and> menor = costo_salida m dep ini viaje \<and>
          menor < PInf \<and> (\<forall>q \<in> set pre. menor < costo_salida m dep q viaje)"
    then obtain pre post where "dep # ha = pre @ ini # post"
      "menor = costo_salida m dep ini viaje"
      "\<forall>q \<in> set pre. menor < costo_salida m dep q viaje"
      by blast
    with paso all show ?thesis by blast
  qed
qed

theorem salida_mas_barata_primera_witness:
  "cuadrada 4 matriz_ejemplo \<and> en_rango 4 0 \<and> list_all (en_rango 4) [3, 1] \<and>
   list_all (en_rango 4) [2, 3] \<and> list_all (en_rango 4) [2] \<and> list_all (en_rango 4) [1] \<and>
   distancia_viaje matriz_ejemplo 0 0 [2, 3] = Inr (Fin 24) \<and>
   distancia_viaje matriz_ejemplo 0 3 [2, 3] = Inr (Fin 19) \<and>
   distancia_viaje matriz_ejemplo 0 1 [2, 3] = Inr (Fin 19) \<and>
   recorrer matriz_ejemplo 0 [3, 1] [[2, 3]] (0, [0]) = Inr (Fin 19, [0, 3, 2, 3, 0]) \<and>
   (\<exists>pre post. [0, 3, 1] = pre @ 3 # post \<and>
      (\<forall>q \<in> set pre. Fin 19 < costo_salida matriz_ejemplo 0 q [2, 3])) \<and>
   distancia_viaje matriz_ejemplo 0 0 [1] = Inr (Fin 10) \<and>
   distancia_viaje matriz_ejemplo 0 2 [1] = Inr (Fin 10) \<and>
   recorrer matriz_ejemplo 0 [2] [[1]] (0, [0]) = Inr (Fin 10, [0, 0, 1, 0]) \<and>
   (\<exists>pre post. [0, 2] = pre @ 0 # post \<and>
      (\<forall>q \<in> set pre. Fin 10 < costo_salida matriz_ejemplo 0 q [1]))"
proof -
  have h1: "cuadrada 4 matriz_ejemplo" by code_simp
  have h2: "en_rango 4 0" by code_simp
  have h3: "list_all (en_rango 4) [3, 1]" by code_simp
  have h3': "list_all (en_rango 4) [2]" by code_simp
  have h4: "[2, 3] \<noteq> ([]::int list)" by simp
  have h4': "[1] \<noteq> ([]::int list)" by simp
  have h5: "list_all (en_rango 4) [2, 3]" by code_simp
  have h5': "list_all (en_rango 4) [1]" by code_simp
  have c0: "costo_salida matriz_ejemplo 0 0 [2, 3] = Fin 24" by code_simp
  have c3: "costo_salida matriz_ejemplo 0 3 [2, 3] = Fin 19" by code_simp
  have c1: "costo_salida matriz_ejemplo 0 1 [2, 3] = Fin 19" by code_simp
  have k0: "costo_salida matriz_ejemplo 0 0 [1] = Fin 10" by code_simp
  have k2: "costo_salida matriz_ejemplo 0 2 [1] = Fin 10" by code_simp
  have ev: "recorrer matriz_ejemplo 0 [3, 1] [[2, 3]] (0, [0]) = Inr (Fin 19, [0, 3, 2, 3, 0])"
    by code_simp
  have ev': "recorrer matriz_ejemplo 0 [2] [[1]] (0, [0]) = Inr (Fin 10, [0, 0, 1, 0])"
    by code_simp
  note t = salida_mas_barata_primera [OF h1 h2 h3 h4 h5, of "[]" 0 "[0]"]
  note t' = salida_mas_barata_primera [OF h1 h2 h3' h4' h5', of "[]" 0 "[0]"]
  from t have d0: "distancia_viaje matriz_ejemplo 0 0 [2, 3] = Inr (Fin 24)"
    using c0 by simp
  from t have d3: "distancia_viaje matriz_ejemplo 0 3 [2, 3] = Inr (Fin 19)"
    using c3 by simp
  from t have d1: "distancia_viaje matriz_ejemplo 0 1 [2, 3] = Inr (Fin 19)"
    using c1 by simp
  from t' have e0: "distancia_viaje matriz_ejemplo 0 0 [1] = Inr (Fin 10)"
    using k0 by simp
  from t' have e2: "distancia_viaje matriz_ejemplo 0 2 [1] = Inr (Fin 10)"
    using k2 by simp
  from t obtain pre ini post where p: "[0, 3, 1] = pre @ ini # post"
    and e: "recorrer matriz_ejemplo 0 [3, 1] [[2, 3]] (0, [0]) =
         recorrer matriz_ejemplo 0 [3, 1] []
           (0 + costo_salida matriz_ejemplo 0 ini [2, 3], [0] @ [ini] @ [2, 3] @ [0])"
    and b: "\<forall>q \<in> set pre. costo_salida matriz_ejemplo 0 ini [2, 3] <
         costo_salida matriz_ejemplo 0 q [2, 3]"
    by blast
  from e ev have i: "ini = 3" by simp
  with p b c3 have "[0, 3, 1] = pre @ 3 # post \<and>
      (\<forall>q \<in> set pre. Fin 19 < costo_salida matriz_ejemplo 0 q [2, 3])"
    by simp
  then have w1: "\<exists>pre post. [0, 3, 1] = pre @ 3 # post \<and>
      (\<forall>q \<in> set pre. Fin 19 < costo_salida matriz_ejemplo 0 q [2, 3])"
    by blast
  from t' obtain pre' ini' post' where p': "[0, 2] = pre' @ ini' # post'"
    and e': "recorrer matriz_ejemplo 0 [2] [[1]] (0, [0]) =
         recorrer matriz_ejemplo 0 [2] []
           (0 + costo_salida matriz_ejemplo 0 ini' [1], [0] @ [ini'] @ [1] @ [0])"
    and b': "\<forall>q \<in> set pre'. costo_salida matriz_ejemplo 0 ini' [1] <
         costo_salida matriz_ejemplo 0 q [1]"
    by blast
  from e' ev' have i': "ini' = 0" by simp
  with p' b' k0 have "[0, 2] = pre' @ 0 # post' \<and>
      (\<forall>q \<in> set pre'. Fin 10 < costo_salida matriz_ejemplo 0 q [1])"
    by simp
  then have w2: "\<exists>pre post. [0, 2] = pre @ 0 # post \<and>
      (\<forall>q \<in> set pre. Fin 10 < costo_salida matriz_ejemplo 0 q [1])"
    by blast
  from h1 h2 h3 h5 h3' h5' d0 d3 d1 ev w1 e0 e2 ev' w2 show ?thesis by blast
qed

section \<open>Weights of paths\<close>

lemma peso_camino_append:
  "peso_camino w a (ks @ k # ls) b = peso_camino w a ks k + peso_camino w k ls b"
  by (induction ks arbitrary: a) (simp_all add: add.assoc)

lemma peso_camino_no_negativo:
  "(\<And>x y. 0 \<le> w x y) \<Longrightarrow> 0 \<le> peso_camino w a ks b"
  by (induction ks arbitrary: a) (simp_all add: ext_suma_no_negativa)

lemma peso_camino_rev:
  "(\<And>x y. w x y = w y x) \<Longrightarrow> peso_camino w b (rev ks) a = peso_camino w a ks b"
proof (induction ks arbitrary: a)
  case Nil
  then show ?case by simp
next
  case (Cons k ks)
  have "peso_camino w b (rev ks @ k # []) a = peso_camino w b (rev ks) k + peso_camino w k [] a"
    by (rule peso_camino_append)
  with Cons show ?case by (simp add: add.commute)
qed

text \<open>
  The step of the algorithm on paths: if \<open>D\<close> bounds from below every path whose
  intermediate nodes are smaller than \<open>k\<close>, then a path whose intermediate nodes are at
  most \<open>k\<close> weighs at least \<open>D a b\<close> or at least \<open>D a k + D k b\<close>.
\<close>

lemma camino_desde_k:
  assumes nn: "\<And>x y. 0 \<le> w x y"
    and L: "\<And>ks. set ks \<subseteq> {..<k} \<Longrightarrow> D k b \<le> peso_camino w k ks b"
    and ks: "set ks \<subseteq> {..<Suc k}"
  shows "D k b \<le> peso_camino w k ks b"
proof (cases "k \<in> set ks")
  case False
  with ks have "set ks \<subseteq> {..<k}" by (auto simp: less_Suc_eq)
  then show ?thesis by (rule L)
next
  case True
  then obtain ys zs where s: "ks = ys @ k # zs" and nz: "k \<notin> set zs"
    by (auto dest: split_list_last)
  with ks have "set zs \<subseteq> {..<k}" by (auto simp: less_Suc_eq)
  then have "D k b \<le> peso_camino w k zs b" by (rule L)
  also have "\<dots> \<le> peso_camino w k ys k + peso_camino w k zs b"
    using ext_le_suma [OF peso_camino_no_negativo [of w k ys k], of "peso_camino w k zs b"] nn
    by (simp add: add.commute)
  finally show ?thesis by (simp add: s peso_camino_append)
qed

lemma camino_por_k:
  assumes nn: "\<And>x y. 0 \<le> w x y"
    and L: "\<And>x y ks. x < n \<Longrightarrow> y < n \<Longrightarrow> set ks \<subseteq> {..<k} \<Longrightarrow> D x y \<le> peso_camino w x ks y"
    and a: "a < n" and b: "b < n" and k: "k < n" and ks: "set ks \<subseteq> {..<Suc k}"
  shows "D a b \<le> peso_camino w a ks b \<or> D a k + D k b \<le> peso_camino w a ks b"
proof (cases "k \<in> set ks")
  case False
  with ks have "set ks \<subseteq> {..<k}" by (auto simp: less_Suc_eq)
  then show ?thesis using L [OF a b] by simp
next
  case True
  then obtain ys zs where s: "ks = ys @ k # zs" and ny: "k \<notin> set ys"
    by (auto dest: split_list_first)
  with ks have ys: "set ys \<subseteq> {..<k}" and zs: "set zs \<subseteq> {..<Suc k}"
    by (auto simp: less_Suc_eq)
  have 1: "D a k \<le> peso_camino w a ys k" using L [OF a k ys] .
  have 2: "D k b \<le> peso_camino w k zs b"
    by (rule camino_desde_k [OF nn _ zs]) (rule L [OF k b])
  have "D a k + D k b \<le> peso_camino w a ys k + peso_camino w k zs b"
    using 1 2 by (rule add_mono)
  then show ?thesis by (simp add: s peso_camino_append)
qed

section \<open>One relaxation\<close>

lemma cuadrada_fila: "cuadrada n d \<Longrightarrow> a < n \<Longrightarrow> length (d ! a) = n"
  by (simp add: cuadrada_def list_all_length)

lemma cuadrada_update:
  "cuadrada n d \<Longrightarrow> length fila = n \<Longrightarrow> cuadrada n (d[i := fila])"
proof -
  assume c: "cuadrada n d" and f: "length fila = n"
  have "length (d[i := fila] ! a) = n" if "a < n" for a
  proof (cases "a = i")
    case True
    with c that f show ?thesis by (simp add: cuadrada_def)
  next
    case False
    with c that show ?thesis by (simp add: cuadrada_def list_all_length)
  qed
  with c show ?thesis by (simp add: cuadrada_def list_all_length)
qed

lemma relajar_cuadrada: "cuadrada n d \<Longrightarrow> i < n \<Longrightarrow> cuadrada n (relajar k i j d)"
  by (simp add: relajar_def cuadrada_update cuadrada_fila)

lemma relajar_entrada:
  assumes "cuadrada n d" "i < n" "j < n" "a < n" "b < n"
  shows "relajar k i j d ! a ! b =
     (if a = i \<and> b = j then min (d ! i ! j) (d ! i ! k + d ! k ! j) else d ! a ! b)"
proof -
  have l: "length d = n" using assms(1) by (simp add: cuadrada_def)
  have f: "length (d ! i) = n" using assms(1,2) by (rule cuadrada_fila)
  show ?thesis
    using assms(2-5) l f by (auto simp: relajar_def nth_list_update min_def)
qed

lemma bajo_refl: "bajo n d d"
  by (simp add: bajo_def)

lemma bajo_trans: "bajo n d1 d2 \<Longrightarrow> bajo n d2 d3 \<Longrightarrow> bajo n d1 d3"
  unfolding bajo_def by (meson order_trans)

lemma relajar_bajo:
  "cuadrada n d \<Longrightarrow> i < n \<Longrightarrow> j < n \<Longrightarrow> bajo n (relajar k i j d) d"
  by (simp add: bajo_def relajar_entrada)

lemma relajar_cota:
  "cuadrada n d \<Longrightarrow> i < n \<Longrightarrow> j < n \<Longrightarrow> relajar k i j d ! i ! j \<le> d ! i ! k + d ! k ! j"
  by (simp add: relajar_entrada)

lemma realizada_suma:
  assumes r: "realizada w n d" and i: "i < n" and j: "j < n" and k: "k < n"
    and lt: "d ! i ! k + d ! k ! j < d ! i ! j"
  shows "\<exists>ks. set ks \<subseteq> {..<n} \<and> peso_camino w i ks j = d ! i ! k + d ! k ! j"
proof -
  from r i k have 1: "(i = k \<and> d ! i ! k = 0) \<or>
      (\<exists>ks. set ks \<subseteq> {..<n} \<and> peso_camino w i ks k = d ! i ! k)"
    by (simp add: realizada_def)
  from r k j have 2: "(k = j \<and> d ! k ! j = 0) \<or>
      (\<exists>ks. set ks \<subseteq> {..<n} \<and> peso_camino w k ks j = d ! k ! j)"
    by (simp add: realizada_def)
  have n1: "\<not> (i = k \<and> d ! i ! k = 0)" using lt by auto
  have n2: "\<not> (k = j \<and> d ! k ! j = 0)" using lt by auto
  from 1 n1 obtain ys where ys: "set ys \<subseteq> {..<n}" "peso_camino w i ys k = d ! i ! k"
    by blast
  from 2 n2 obtain zs where zs: "set zs \<subseteq> {..<n}" "peso_camino w k zs j = d ! k ! j"
    by blast
  have "set (ys @ k # zs) \<subseteq> {..<n}" using ys zs k by simp
  moreover have "peso_camino w i (ys @ k # zs) j = d ! i ! k + d ! k ! j"
    using ys zs by (simp add: peso_camino_append)
  ultimately show ?thesis by blast
qed

lemma relajar_realizada:
  assumes c: "cuadrada n d" and r: "realizada w n d" and i: "i < n" and j: "j < n"
    and k: "k < n"
  shows "realizada w n (relajar k i j d)"
  unfolding realizada_def
proof (intro allI impI)
  fix a b assume a: "a < n" and b: "b < n"
  from r a b have old: "(a = b \<and> d ! a ! b = 0) \<or>
      (\<exists>ks. set ks \<subseteq> {..<n} \<and> peso_camino w a ks b = d ! a ! b)"
    by (simp add: realizada_def)
  show "(a = b \<and> relajar k i j d ! a ! b = 0) \<or>
      (\<exists>ks. set ks \<subseteq> {..<n} \<and> peso_camino w a ks b = relajar k i j d ! a ! b)"
  proof (cases "a = i \<and> b = j \<and> d ! i ! k + d ! k ! j < d ! i ! j")
    case True
    then have "relajar k i j d ! a ! b = d ! i ! k + d ! k ! j"
      using c i j by (auto simp: relajar_entrada min_def)
    with realizada_suma [OF r i j k] True show ?thesis by auto
  next
    case False
    then have "relajar k i j d ! a ! b = d ! a ! b"
      using c i j a b by (auto simp: relajar_entrada min_def)
    with old show ?thesis by simp
  qed
qed

section \<open>The three nested loops\<close>

lemma pasada_j:
  assumes i: "i < n" and k: "k < n"
  shows "cuadrada n d \<Longrightarrow> set js \<subseteq> {..<n} \<Longrightarrow> bajo n d d0 \<Longrightarrow> realizada w n d \<Longrightarrow>
    cuadrada n (fold (relajar k i) js d) \<and> bajo n (fold (relajar k i) js d) d \<and>
    realizada w n (fold (relajar k i) js d) \<and>
    (\<forall>j \<in> set js. fold (relajar k i) js d ! i ! j \<le> d0 ! i ! k + d0 ! k ! j)"
proof (induction js arbitrary: d)
  case Nil
  then show ?case by (simp add: bajo_refl)
next
  case (Cons j js)
  let ?d1 = "relajar k i j d"
  let ?d2 = "fold (relajar k i) js ?d1"
  from Cons.prems have j: "j < n" and js: "set js \<subseteq> {..<n}" by simp_all
  have c1: "cuadrada n ?d1" using Cons.prems(1) i by (rule relajar_cuadrada)
  have b1: "bajo n ?d1 d" using Cons.prems(1) i j by (rule relajar_bajo)
  have b10: "bajo n ?d1 d0" using b1 Cons.prems(3) by (rule bajo_trans)
  have r1: "realizada w n ?d1" using Cons.prems(1,4) i j k by (rule relajar_realizada)
  from Cons.IH [OF c1 js b10 r1]
  have c2: "cuadrada n ?d2" and b2: "bajo n ?d2 ?d1" and r2: "realizada w n ?d2"
    and u2: "\<forall>j \<in> set js. ?d2 ! i ! j \<le> d0 ! i ! k + d0 ! k ! j"
    by simp_all
  have "?d2 ! i ! j \<le> ?d1 ! i ! j" using b2 i j by (simp add: bajo_def)
  also have "\<dots> \<le> d ! i ! k + d ! k ! j" using Cons.prems(1) i j by (rule relajar_cota)
  also have "\<dots> \<le> d0 ! i ! k + d0 ! k ! j"
    using Cons.prems(3) i j k by (simp add: bajo_def add_mono)
  finally have uj: "?d2 ! i ! j \<le> d0 ! i ! k + d0 ! k ! j" .
  have "bajo n ?d2 d" using b2 b1 by (rule bajo_trans)
  with c2 r2 u2 uj show ?case by simp
qed

lemma bucle_j_propiedades:
  assumes "i < n" "k < n" "cuadrada n d" "bajo n d d0" "realizada w n d"
  shows "cuadrada n (bucle_j n k i d) \<and> bajo n (bucle_j n k i d) d \<and>
    realizada w n (bucle_j n k i d) \<and>
    (\<forall>j<n. bucle_j n k i d ! i ! j \<le> d0 ! i ! k + d0 ! k ! j)"
  using pasada_j [OF assms(1,2,3) _ assms(4,5), of "[0..<n]"]
  by (simp add: bucle_j_def subset_iff)

lemma pasada_i:
  assumes k: "k < n"
  shows "cuadrada n d \<Longrightarrow> set is \<subseteq> {..<n} \<Longrightarrow> bajo n d d0 \<Longrightarrow> realizada w n d \<Longrightarrow>
    cuadrada n (fold (bucle_j n k) is d) \<and> bajo n (fold (bucle_j n k) is d) d \<and>
    realizada w n (fold (bucle_j n k) is d) \<and>
    (\<forall>i \<in> set is. \<forall>j<n. fold (bucle_j n k) is d ! i ! j \<le> d0 ! i ! k + d0 ! k ! j)"
proof (induction "is" arbitrary: d)
  case Nil
  then show ?case by (simp add: bajo_refl)
next
  case (Cons i "is")
  let ?d1 = "bucle_j n k i d"
  let ?d2 = "fold (bucle_j n k) is ?d1"
  from Cons.prems have i: "i < n" and "is": "set is \<subseteq> {..<n}" by simp_all
  from bucle_j_propiedades [OF i k Cons.prems(1,3,4)]
  have c1: "cuadrada n ?d1" and b1: "bajo n ?d1 d" and r1: "realizada w n ?d1"
    and u1: "\<forall>j<n. ?d1 ! i ! j \<le> d0 ! i ! k + d0 ! k ! j"
    by simp_all
  have b10: "bajo n ?d1 d0" using b1 Cons.prems(3) by (rule bajo_trans)
  from Cons.IH [OF c1 "is" b10 r1]
  have c2: "cuadrada n ?d2" and b2: "bajo n ?d2 ?d1" and r2: "realizada w n ?d2"
    and u2: "\<forall>i \<in> set is. \<forall>j<n. ?d2 ! i ! j \<le> d0 ! i ! k + d0 ! k ! j"
    by simp_all
  have ui: "\<forall>j<n. ?d2 ! i ! j \<le> d0 ! i ! k + d0 ! k ! j"
  proof (intro allI impI)
    fix j assume j: "j < n"
    have "?d2 ! i ! j \<le> ?d1 ! i ! j" using b2 i j by (simp add: bajo_def)
    also have "\<dots> \<le> d0 ! i ! k + d0 ! k ! j" using u1 j by simp
    finally show "?d2 ! i ! j \<le> d0 ! i ! k + d0 ! k ! j" .
  qed
  have "bajo n ?d2 d" using b2 b1 by (rule bajo_trans)
  with c2 r2 u2 ui show ?case by simp
qed

lemma bucle_i_propiedades:
  assumes "k < n" "cuadrada n d" "realizada w n d"
  shows "cuadrada n (bucle_i n k d) \<and> bajo n (bucle_i n k d) d \<and>
    realizada w n (bucle_i n k d) \<and>
    (\<forall>i<n. \<forall>j<n. bucle_i n k d ! i ! j \<le> d ! i ! k + d ! k ! j)"
  using pasada_i [OF assms(1,2) _ bajo_refl assms(3), of "[0..<n]"]
  by (simp add: bucle_i_def subset_iff)

lemma bucle_i_acotada:
  assumes nn: "\<And>x y. 0 \<le> w x y" and k: "k < n" and c: "cuadrada n d"
    and r: "realizada w n d" and l: "acotada w n k d"
  shows "acotada w n (Suc k) (bucle_i n k d)"
  unfolding acotada_def
proof (intro allI impI)
  fix a b ks assume a: "a < n" and b: "b < n" and ks: "set ks \<subseteq> {..<Suc k}"
  note p = bucle_i_propiedades [OF k c r]
  have le1: "bucle_i n k d ! a ! b \<le> d ! a ! b"
    using p a b by (simp add: bajo_def)
  have le2: "bucle_i n k d ! a ! b \<le> d ! a ! k + d ! k ! b"
    using p a b by simp
  have L: "\<And>x y ks. x < n \<Longrightarrow> y < n \<Longrightarrow> set ks \<subseteq> {..<k} \<Longrightarrow>
      d ! x ! y \<le> peso_camino w x ks y"
    using l by (simp add: acotada_def)
  from camino_por_k [of w n k "\<lambda>x y. d ! x ! y", OF nn L a b k ks]
  have "d ! a ! b \<le> peso_camino w a ks b \<or> d ! a ! k + d ! k ! b \<le> peso_camino w a ks b"
    by simp
  with le1 le2 show "bucle_i n k d ! a ! b \<le> peso_camino w a ks b"
    by (auto intro: order_trans)
qed

lemma bucle_k_invariante:
  assumes nn: "\<And>x y. 0 \<le> w x y" and c: "cuadrada n d0" and r: "realizada w n d0"
    and l: "acotada w n 0 d0"
  shows "k \<le> n \<Longrightarrow>
    cuadrada n (fold (bucle_i n) [0..<k] d0) \<and> bajo n (fold (bucle_i n) [0..<k] d0) d0 \<and>
    realizada w n (fold (bucle_i n) [0..<k] d0) \<and>
    acotada w n k (fold (bucle_i n) [0..<k] d0)"
proof (induction k)
  case 0
  with c r l show ?case by (simp add: bajo_refl)
next
  case (Suc k)
  let ?d = "fold (bucle_i n) [0..<k] d0"
  from Suc have k: "k < n" and ih: "cuadrada n ?d" "bajo n ?d d0" "realizada w n ?d"
    "acotada w n k ?d"
    by simp_all
  note p = bucle_i_propiedades [OF k ih(1,3)]
  have "bajo n (bucle_i n k ?d) d0" using p ih(2) by (blast intro: bajo_trans)
  moreover have "acotada w n (Suc k) (bucle_i n k ?d)"
    using nn k ih(1,3,4) by (rule bucle_i_acotada)
  ultimately show ?case using p by simp
qed

section \<open>The distances after the last pass\<close>

lemma bucle_k_resultado:
  assumes nn: "\<And>x y. 0 \<le> w x y" and sym: "\<And>x y. w x y = w y x"
    and c: "cuadrada n d0"
    and init0: "\<forall>a<n. \<forall>b<n. d0 ! a ! b = (if a = b then 0 else w a b)"
  shows "cuadrada n (bucle_k n d0)"
    and "a < n \<Longrightarrow> bucle_k n d0 ! a ! a = 0"
    and "a < n \<Longrightarrow> b < n \<Longrightarrow> bucle_k n d0 ! a ! b = bucle_k n d0 ! b ! a"
    and "a < n \<Longrightarrow> b < n \<Longrightarrow> k < n \<Longrightarrow>
         bucle_k n d0 ! a ! b \<le> bucle_k n d0 ! a ! k + bucle_k n d0 ! k ! b"
    and "a < n \<Longrightarrow> b < n \<Longrightarrow> set ks \<subseteq> {..<n} \<Longrightarrow>
         bucle_k n d0 ! a ! b \<le> peso_camino w a ks b"
    and "a < n \<Longrightarrow> b < n \<Longrightarrow> a \<noteq> b \<Longrightarrow>
         \<exists>ls. set ls \<subseteq> {..<n} \<and> peso_camino w a ls b = bucle_k n d0 ! a ! b"
proof -
  let ?d = "bucle_k n d0"
  have init: "d0 ! x ! y = (if x = y then 0 else w x y)" if "x < n" "y < n" for x y
    using init0 that by simp
  have r0: "realizada w n d0"
    unfolding realizada_def
  proof (intro allI impI)
    fix x y assume x: "x < n" and y: "y < n"
    show "(x = y \<and> d0 ! x ! y = 0) \<or>
        (\<exists>ks. set ks \<subseteq> {..<n} \<and> peso_camino w x ks y = d0 ! x ! y)"
    proof (cases "x = y")
      case True
      with init [OF x y] show ?thesis by simp
    next
      case False
      with init [OF x y] have "set [] \<subseteq> {..<n} \<and> peso_camino w x [] y = d0 ! x ! y"
        by simp
      then show ?thesis by blast
    qed
  qed
  have l0: "acotada w n 0 d0"
    unfolding acotada_def using init nn by auto
  from bucle_k_invariante [OF nn c r0 l0, of n]
  have cu: "cuadrada n ?d" and ba: "bajo n ?d d0" and re: "realizada w n ?d"
    and ac: "acotada w n n ?d"
    by (simp_all add: bucle_k_def)
  have lower: "?d ! x ! y \<le> peso_camino w x ls y"
    if "x < n" "y < n" "set ls \<subseteq> {..<n}" for x y ls
    using ac that by (simp add: acotada_def)
  have real: "(x = y \<and> ?d ! x ! y = 0) \<or>
        (\<exists>ls. set ls \<subseteq> {..<n} \<and> peso_camino w x ls y = ?d ! x ! y)"
    if "x < n" "y < n" for x y
    using re that by (simp add: realizada_def)
  have pos: "0 \<le> ?d ! x ! y" if "x < n" "y < n" for x y
    using real [OF that] peso_camino_no_negativo [of w, OF nn] by (metis order_refl)
  have diag: "?d ! x ! x = 0" if "x < n" for x
  proof -
    have "?d ! x ! x \<le> d0 ! x ! x" using ba that by (simp add: bajo_def)
    then have "?d ! x ! x \<le> 0" using init [OF that that] by simp
    with pos [OF that that] show ?thesis by simp
  qed
  have half: "?d ! x ! y \<le> ?d ! y ! x" if x: "x < n" and y: "y < n" for x y
    using real [OF y x]
  proof
    assume "y = x \<and> ?d ! y ! x = 0"
    then show ?thesis by simp
  next
    assume "\<exists>ls. set ls \<subseteq> {..<n} \<and> peso_camino w y ls x = ?d ! y ! x"
    then obtain ls where ls: "set ls \<subseteq> {..<n}" "peso_camino w y ls x = ?d ! y ! x"
      by blast
    have "?d ! x ! y \<le> peso_camino w x (rev ls) y"
      using x y ls(1) by (simp add: lower)
    also have "\<dots> = peso_camino w y ls x" using sym by (rule peso_camino_rev)
    finally show ?thesis using ls(2) by simp
  qed
  show "cuadrada n ?d" by (rule cu)
  show "a < n \<Longrightarrow> ?d ! a ! a = 0" by (rule diag)
  show "a < n \<Longrightarrow> b < n \<Longrightarrow> ?d ! a ! b = ?d ! b ! a"
    by (simp add: half order_antisym)
  show "a < n \<Longrightarrow> b < n \<Longrightarrow> set ks \<subseteq> {..<n} \<Longrightarrow> ?d ! a ! b \<le> peso_camino w a ks b"
    by (rule lower)
  show "a < n \<Longrightarrow> b < n \<Longrightarrow> a \<noteq> b \<Longrightarrow>
         \<exists>ls. set ls \<subseteq> {..<n} \<and> peso_camino w a ls b = ?d ! a ! b"
    using real by blast
  show "?d ! a ! b \<le> ?d ! a ! k + ?d ! k ! b" if a: "a < n" and b: "b < n" and k: "k < n"
    using real [OF a k]
  proof
    assume h: "a = k \<and> ?d ! a ! k = 0"
    have "?d ! k ! k + ?d ! k ! b = ?d ! k ! b" by (simp add: diag [OF k])
    with h show ?thesis by simp
  next
    assume "\<exists>ls. set ls \<subseteq> {..<n} \<and> peso_camino w a ls k = ?d ! a ! k"
    then obtain ys where ys: "set ys \<subseteq> {..<n}" "peso_camino w a ys k = ?d ! a ! k"
      by blast
    from real [OF k b] show ?thesis
    proof
      assume h: "k = b \<and> ?d ! k ! b = 0"
      have "?d ! a ! k + ?d ! k ! k = ?d ! a ! k" by (simp add: diag [OF k])
      with h show ?thesis by simp
    next
      assume "\<exists>ls. set ls \<subseteq> {..<n} \<and> peso_camino w k ls b = ?d ! k ! b"
      then obtain zs where zs: "set zs \<subseteq> {..<n}" "peso_camino w k zs b = ?d ! k ! b"
        by blast
      have "?d ! a ! b \<le> peso_camino w a (ys @ k # zs) b"
        using a b k ys(1) zs(1) by (simp add: lower)
      then show ?thesis using ys(2) zs(2) by (simp add: peso_camino_append)
    qed
  qed
qed

section \<open>The initial matrix\<close>

lemma cuadrada_replicate: "cuadrada n (replicate n (replicate n x))"
  by (simp add: cuadrada_def list_all_length)

lemma diagonal_hasta:
  "k \<le> n \<Longrightarrow>
   cuadrada n (fold (\<lambda>i d. d[i := (d ! i)[i := 0]]) [0..<k] (replicate n (replicate n PInf))) \<and>
   (\<forall>a<n. \<forall>b<n.
      fold (\<lambda>i d. d[i := (d ! i)[i := 0]]) [0..<k] (replicate n (replicate n PInf)) ! a ! b =
        (if a = b \<and> a < k then 0 else PInf))"
proof (induction k)
  case 0
  then show ?case by (simp add: cuadrada_replicate)
next
  case (Suc k)
  let ?d = "fold (\<lambda>i d. d[i := (d ! i)[i := 0]]) [0..<k] (replicate n (replicate n PInf))"
  from Suc have k: "k < n" and c: "cuadrada n ?d"
    and e: "\<forall>a<n. \<forall>b<n. ?d ! a ! b = (if a = b \<and> a < k then 0 else PInf)"
    by simp_all
  have l: "length ?d = n" using c by (simp add: cuadrada_def)
  have f: "length (?d ! k) = n" using c k by (rule cuadrada_fila)
  have "cuadrada n (?d[k := (?d ! k)[k := 0]])"
    using c f by (simp add: cuadrada_update)
  moreover have "\<forall>a<n. \<forall>b<n. ?d[k := (?d ! k)[k := 0]] ! a ! b =
      (if a = b \<and> a < Suc k then 0 else PInf)"
    using e l f k by (auto simp: nth_list_update less_Suc_eq)
  ultimately show ?case by simp
qed

lemma matriz_inicial_entradas:
  "cuadrada n (matriz_inicial n)"
  "a < n \<Longrightarrow> b < n \<Longrightarrow> matriz_inicial n ! a ! b = (if a = b then 0 else PInf)"
  using diagonal_hasta [of n n] by (simp_all add: matriz_inicial_def)

lemma mset_entry_en_rango:
  assumes c: "cuadrada n d" and u: "en_rango n u" and v: "en_rango n v"
  shows "mset_entry d u v x = Inr (d[nat u := (d ! nat u)[nat v := x]])"
    and "cuadrada n (d[nat u := (d ! nat u)[nat v := x]])"
    and "a < n \<Longrightarrow> b < n \<Longrightarrow> d[nat u := (d ! nat u)[nat v := x]] ! a ! b =
           (if int a = u \<and> int b = v then x else d ! a ! b)"
proof -
  have l: "length d = n" using c by (simp add: cuadrada_def)
  have un: "nat u < n" using u by (auto simp: en_rango_def)
  have vn: "nat v < n" using v by (auto simp: en_rango_def)
  have f: "length (d ! nat u) = n" using c un by (rule cuadrada_fila)
  show "mset_entry d u v x = Inr (d[nat u := (d ! nat u)[nat v := x]])"
    using u v l f by (simp add: mset_entry_def py_index_en_rango)
  show "cuadrada n (d[nat u := (d ! nat u)[nat v := x]])"
    using c f by (simp add: cuadrada_update)
  show "a < n \<Longrightarrow> b < n \<Longrightarrow> d[nat u := (d ! nat u)[nat v := x]] ! a ! b =
           (if int a = u \<and> int b = v then x else d ! a ! b)"
    using l f un vn u v by (auto simp: nth_list_update en_rango_def)
qed

lemma find_en_append:
  "find P (xs @ ys) = (case find P xs of None \<Rightarrow> find P ys | Some x \<Rightarrow> Some x)"
  by (induction xs) simp_all

lemma dos_asignaciones:
  "x1 = (if A then p else x0) \<Longrightarrow> x2 = (if B then p else x1) \<Longrightarrow> (AB \<longleftrightarrow> A \<or> B) \<Longrightarrow>
   x2 = (if AB then p else (x0::ext))"
  by auto

lemma cargar_aristas_entradas:
  "cuadrada n d \<Longrightarrow> list_all (arista_valida n) es \<Longrightarrow>
   \<exists>d'. cargar_aristas es d = Inr d' \<and> cuadrada n d' \<and>
     (\<forall>a<n. \<forall>b<n. d' ! a ! b =
        (case find (une (int a) (int b)) (rev es) of None \<Rightarrow> d ! a ! b | Some e \<Rightarrow> snd e))"
proof (induction es arbitrary: d)
  case Nil
  then show ?case by simp
next
  case (Cons e es)
  obtain u v p where e: "e = ((u, v), p)" by (cases e) auto
  from Cons.prems have es: "list_all (arista_valida n) es" and ev: "arista_valida n e"
    by simp_all
  from ev e have u: "en_rango n u" and v: "en_rango n v"
    by (simp_all add: arista_valida_def)
  let ?d1 = "d[nat u := (d ! nat u)[nat v := p]]"
  let ?d2 = "?d1[nat v := (?d1 ! nat v)[nat u := p]]"
  note s1 = mset_entry_en_rango [OF Cons.prems(1) u v, where x = p]
  note s2 = mset_entry_en_rango [OF s1(2) v u, where x = p]
  from Cons.IH [OF s2(2) es] obtain d' where d': "cargar_aristas es ?d2 = Inr d'"
    and c': "cuadrada n d'"
    and e': "\<forall>a<n. \<forall>b<n. d' ! a ! b =
        (case find (une (int a) (int b)) (rev es) of None \<Rightarrow> ?d2 ! a ! b | Some e \<Rightarrow> snd e)"
    by blast
  have r: "cargar_aristas (e # es) d = Inr d'"
    using e s1(1) s2(1) d' by simp
  have "d' ! a ! b =
        (case find (une (int a) (int b)) (rev (e # es)) of None \<Rightarrow> d ! a ! b | Some e \<Rightarrow> snd e)"
    if a: "a < n" and b: "b < n" for a b
  proof -
    have 1: "?d1 ! a ! b = (if int a = u \<and> int b = v then p else d ! a ! b)"
      by (rule s1(3) [OF a b])
    have 2: "?d2 ! a ! b = (if int a = v \<and> int b = u then p else ?d1 ! a ! b)"
      by (rule s2(3) [OF a b])
    have 3: "une (int a) (int b) e \<longleftrightarrow> int a = u \<and> int b = v \<or> int a = v \<and> int b = u"
      using e by (auto simp: une_def)
    have d2: "?d2 ! a ! b = (if une (int a) (int b) e then p else d ! a ! b)"
      by (rule dos_asignaciones [OF 1 2 3])
    have 4: "d' ! a ! b =
        (case find (une (int a) (int b)) (rev es) of None \<Rightarrow> ?d2 ! a ! b | Some e \<Rightarrow> snd e)"
      using e' a b by blast
    show ?thesis
      unfolding 4 d2 using e by (simp add: find_en_append split: option.splits)
  qed
  with r c' show ?case by blast
qed

section \<open>Correctness of floyd_warshall\<close>

lemma find_Some_en: "find P xs = Some x \<Longrightarrow> x \<in> set xs \<and> P x"
  by (induction xs) (auto split: if_splits)

lemma une_sym: "une a b = une b a"
  by (auto simp: une_def fun_eq_iff)

lemma peso_arista_sym: "peso_arista es a b = peso_arista es b a"
  by (simp add: peso_arista_def une_sym [of "int a" "int b"])

lemma peso_arista_no_negativo:
  assumes "list_all (arista_valida n) es"
  shows "0 \<le> peso_arista es a b"
proof (cases "find (une (int a) (int b)) es")
  case None
  then show ?thesis by (simp add: peso_arista_def)
next
  case (Some e)
  then have "e \<in> set es" by (auto dest: find_Some_en)
  with assms have "0 \<le> snd e" by (auto simp: list_all_iff arista_valida_def)
  with Some show ?thesis by (simp add: peso_arista_def)
qed

lemma sin_lazos:
  assumes "list_all (arista_valida n) es"
  shows "find (une (int a) (int a)) (rev es) = None"
proof -
  have "\<not> une (int a) (int a) e" if "e \<in> set es" for e
    using assms that by (auto simp: list_all_iff arista_valida_def une_def)
  then show ?thesis by (auto simp: find_None_iff)
qed

lemma peso_coherente:
  assumes "aristas_validas n es"
  shows "(case find (une (int a) (int b)) (rev es) of None \<Rightarrow> PInf | Some e \<Rightarrow> snd e) =
         peso_arista es a b"
proof (cases "find (une (int a) (int b)) es")
  case None
  then have "find (une (int a) (int b)) (rev es) = None"
    by (simp add: find_None_iff)
  with None show ?thesis by (simp add: peso_arista_def)
next
  case (Some e2)
  then have e2: "e2 \<in> set es" "une (int a) (int b) e2" by (auto dest: find_Some_en)
  then have "e2 \<in> set (rev es) \<and> une (int a) (int b) e2" by simp
  then have "\<exists>x. x \<in> set (rev es) \<and> une (int a) (int b) x" by (rule exI)
  then have "find (une (int a) (int b)) (rev es) \<noteq> None"
    by (simp only: find_None_iff not_not)
  then obtain e1 where f1: "find (une (int a) (int b)) (rev es) = Some e1" by auto
  then have e1: "e1 \<in> set es" "une (int a) (int b) e1"
    by (auto dest: find_Some_en)
  from assms e2(1) e1(1)
  have c: "une (fst (fst e2)) (snd (fst e2)) e1 \<longrightarrow> snd e1 = snd e2"
    by (auto simp: aristas_validas_def list_all_iff)
  from e2(2) have "une (fst (fst e2)) (snd (fst e2)) = une (int a) (int b)"
    using une_sym [of "int a" "int b"] by (auto simp: une_def)
  with c e1(2) have "snd e1 = snd e2" by simp
  with Some f1 show ?thesis by (simp add: peso_arista_def)
qed

lemma matriz_de_aristas:
  assumes v: "aristas_validas n es"
  shows "\<exists>d0. cargar_aristas es (matriz_inicial n) = Inr d0 \<and> cuadrada n d0 \<and>
    (\<forall>a<n. \<forall>b<n. d0 ! a ! b = (if a = b then 0 else peso_arista es a b))"
proof -
  from v have va: "list_all (arista_valida n) es" by (simp add: aristas_validas_def)
  from cargar_aristas_entradas [OF matriz_inicial_entradas(1) va]
  obtain d0 where d0: "cargar_aristas es (matriz_inicial n) = Inr d0"
    and c0: "cuadrada n d0"
    and e0: "\<forall>a<n. \<forall>b<n. d0 ! a ! b =
        (case find (une (int a) (int b)) (rev es) of None \<Rightarrow> matriz_inicial n ! a ! b
         | Some e \<Rightarrow> snd e)"
    by (elim exE conjE)
  have init: "d0 ! a ! b = (if a = b then 0 else peso_arista es a b)"
    if a: "a < n" and b: "b < n" for a b
  proof (cases "a = b")
    case True
    with e0 a sin_lazos [OF va, of a] matriz_inicial_entradas(2) [OF a a]
    show ?thesis by simp
  next
    case False
    have "d0 ! a ! b =
        (case find (une (int a) (int b)) (rev es) of None \<Rightarrow> PInf | Some e \<Rightarrow> snd e)"
      using e0 a b False matriz_inicial_entradas(2) [OF a b]
      by (simp cong: option.case_cong)
    with False show ?thesis by (simp add: peso_coherente [OF v])
  qed
  from init have "\<forall>a<n. \<forall>b<n. d0 ! a ! b = (if a = b then 0 else peso_arista es a b)"
    by simp
  with d0 c0 show ?thesis by (intro exI conjI)
qed




section \<open>Unreachable nodes\<close>

lemma sum_list_infinito: "PInf \<in> set xs \<Longrightarrow> sum_list xs = PInf"
  by (induction xs) auto

lemma costo_salida_infinito:
  assumes "entrada m p (hd viaje) = PInf \<or>
           PInf \<in> set (map2 (entrada m) (butlast viaje) (tl viaje)) \<or>
           entrada m (last viaje) dep = PInf"
  shows "costo_salida m dep p viaje = PInf"
  using assms
proof (elim disjE)
  assume "entrada m p (hd viaje) = PInf"
  then show ?thesis by (simp add: costo_salida_def)
next
  assume "PInf \<in> set (map2 (entrada m) (butlast viaje) (tl viaje))"
  then have "sum_list (map2 (entrada m) (butlast viaje) (tl viaje)) = PInf"
    by (rule sum_list_infinito)
  then show ?thesis by (simp add: costo_salida_def)
next
  assume "entrada m (last viaje) dep = PInf"
  then show ?thesis by (simp add: costo_salida_def)
qed

lemma probar_inicios_descarta:
  assumes "distancia_viaje m dep p viaje = Inr PInf"
  shows "probar_inicios m dep viaje (p # ps) st = probar_inicios m dep viaje ps st"
  using assms by (cases st) simp

lemma recorrer_en_rango:
  assumes c: "cuadrada n m" and dep: "en_rango n dep" and ha: "list_all (en_rango n) ha"
  shows "viajes_validos n vs \<Longrightarrow>
    \<exists>d ru. recorrer m dep ha vs (d0, ru0) = Inr (d, ru) \<and>
      (d0 = PInf \<or> (\<exists>v \<in> set vs. inviable m dep ha v) \<longrightarrow> d = PInf)"
proof (induction vs arbitrary: d0 ru0)
  case Nil
  then show ?case by simp
next
  case (Cons v vs)
  from Cons.prems have v: "v \<noteq> []" "list_all (en_rango n) v" and vs: "viajes_validos n vs"
    by (simp_all add: viajes_validos_def)
  have ps: "list_all (en_rango n) (dep # ha)" using dep ha by simp
  from probar_inicios_primer_minimo [OF c dep v ps, of PInf dep]
  obtain menor ini where
    r: "probar_inicios m dep v (dep # ha) (PInf, dep) = Inr (menor, ini)"
    and alt: "menor = PInf \<and> ini = dep \<or>
       (\<exists>pre post. dep # ha = pre @ ini # post \<and> menor = costo_salida m dep ini v \<and>
          menor < PInf \<and> (\<forall>q \<in> set pre. menor < costo_salida m dep q v))"
    by blast
  have inf: "menor = PInf" if iv: "inviable m dep ha v"
    using alt
  proof
    assume "menor = PInf \<and> ini = dep"
    then show ?thesis by simp
  next
    assume "\<exists>pre post. dep # ha = pre @ ini # post \<and> menor = costo_salida m dep ini v \<and>
          menor < PInf \<and> (\<forall>q \<in> set pre. menor < costo_salida m dep q v)"
    then obtain pre post where p: "dep # ha = pre @ ini # post"
      and m: "menor = costo_salida m dep ini v"
      by blast
    from p have "ini \<in> set (dep # ha)" by (metis in_set_conv_decomp)
    with iv have "costo_salida m dep ini v = PInf"
      unfolding inviable_def list_all_iff by blast
    with m show ?thesis by simp
  qed
  from Cons.IH [OF vs, of "d0 + menor" "ru0 @ [ini] @ v @ [dep]"]
  obtain d ru where
    rr: "recorrer m dep ha vs (d0 + menor, ru0 @ [ini] @ v @ [dep]) = Inr (d, ru)"
    and ii: "d0 + menor = PInf \<or> (\<exists>v \<in> set vs. inviable m dep ha v) \<longrightarrow> d = PInf"
    by blast
  have 1: "recorrer m dep ha (v # vs) (d0, ru0) = Inr (d, ru)"
    using r rr by simp
  have 2: "d0 = PInf \<or> (\<exists>w \<in> set (v # vs). inviable m dep ha w) \<longrightarrow> d = PInf"
  proof
    assume "d0 = PInf \<or> (\<exists>w \<in> set (v # vs). inviable m dep ha w)"
    then have "d0 + menor = PInf \<or> (\<exists>v \<in> set vs. inviable m dep ha v)"
      using inf by auto
    with ii show "d = PInf" by simp
  qed
  from 1 2 show ?case by blast
qed

lemma costo_de_hoja_inviable:
  assumes "cuadrada n m" "en_rango n (deposito_id dt)" "list_all (en_rango n) ha"
    "viajes_validos n (viajes_de (capacidad_camion dt) ppd)"
    "\<exists>v \<in> set (viajes_de (capacidad_camion dt) ppd). inviable m (deposito_id dt) ha v"
  shows "costo_de_hoja dt m ppd (ha, ca) = Inr PInf"
proof -
  from recorrer_en_rango [OF assms(1,2,3,4), of 0 "[deposito_id dt]"] assms(5)
  obtain ru where "recorrer m (deposito_id dt) ha (viajes_de (capacidad_camion dt) ppd)
      (0, [deposito_id dt]) = Inr (PInf, ru)"
    by auto
  then show ?thesis by (simp add: costo_de_hoja_def)
qed

lemma hubs_de_hoja_en_rango:
  assumes "list_all (en_rango n) (map fst H)" "h \<in> set (hojas_desde H H [] 0)"
  shows "fst h \<in> set (subseqs (map fst H)) \<and> list_all (en_rango n) (fst h)"
proof -
  from assms(2) have "fst h \<in> fst ` set (hojas_desde H H [] 0)" by simp
  then have s: "fst h \<in> set (subseqs (map fst H))"
    by (simp add: hubs_de_hojas_desde [OF claves_presentes])
  then have "set (fst h) \<subseteq> set (map fst H)"
    by (metis subseqs_powset PowD image_eqI)
  with assms(1) have "list_all (en_rango n) (fst h)"
    by (auto simp: list_all_iff)
  with s show ?thesis by simp
qed

lemma floyd_warshall_realiza_camino:
  assumes "aristas_validas n es" "a < n" "b < n" "a \<noteq> b"
  shows "\<exists>d ks. floyd_warshall es n = Inr d \<and> set ks \<subseteq> {..<n} \<and>
           peso_camino (peso_arista es) a ks b = d ! a ! b"
proof -
  from assms(1) have va: "list_all (arista_valida n) es" by (simp add: aristas_validas_def)
  from matriz_de_aristas [OF assms(1)] obtain d0 where
    d0: "cargar_aristas es (matriz_inicial n) = Inr d0" and c0: "cuadrada n d0"
    and e0: "\<forall>x<n. \<forall>y<n. d0 ! x ! y = (if x = y then 0 else peso_arista es x y)"
    by (elim exE conjE)
  have nn: "\<And>x y. 0 \<le> peso_arista es x y" by (rule peso_arista_no_negativo [OF va])
  have sym: "\<And>x y. peso_arista es x y = peso_arista es y x" by (rule peso_arista_sym)
  from bucle_k_resultado(6) [of "peso_arista es" n d0, OF nn sym c0 e0 assms(2,3,4)]
  obtain ks where "set ks \<subseteq> {..<n}"
    "peso_camino (peso_arista es) a ks b = bucle_k n d0 ! a ! b"
    by (elim exE conjE)
  moreover have "floyd_warshall es n = Inr (bucle_k n d0)"
    using d0 by (simp add: floyd_warshall_def)
  ultimately show ?thesis by (intro exI conjI)
qed

lemma busqueda_inviable:
  assumes c: "cuadrada n m" and dep: "en_rango n (deposito_id dt)"
    and hs: "list_all (en_rango n) (map fst (hubs dt))"
    and vv: "viajes_validos n (viajes_de (capacidad_camion dt) ppd)"
    and iv: "\<forall>ha \<in> set (subseqs (map fst (hubs dt))).
              \<exists>v \<in> set (viajes_de (capacidad_camion dt) ppd). inviable m (deposito_id dt) ha v"
  shows "probar_combinaciones dt m ppd 0 [] 0 mejor_inicial = Inr mejor_inicial"
proof -
  have "costo_de_hoja dt m ppd h = Inr PInf"
    if h: "h \<in> set (hojas_desde (hubs dt) (hubs dt) [] 0)" for h
  proof -
    from hubs_de_hoja_en_rango [OF hs h]
    have s: "fst h \<in> set (subseqs (map fst (hubs dt)))" and r: "list_all (en_rango n) (fst h)"
      by simp_all
    from iv s have "\<exists>v \<in> set (viajes_de (capacidad_camion dt) ppd).
        inviable m (deposito_id dt) (fst h) v"
      by (rule bspec)
    from costo_de_hoja_inviable [OF c dep r vv this, of "snd h"] show ?thesis by simp
  qed
  then have "\<forall>h \<in> set (hojas_desde (hubs dt) (hubs dt) [] 0).
      costo_de_hoja dt m ppd h = Inr PInf"
    by (rule ballI)
  from evaluar_hojas_costo_infinito [OF this] show ?thesis
    by (simp add: probar_es_evaluar_hojas)
qed

text \<open>
  C8. In a disconnected graph a pair of different nodes that no path of finite weight
  joins has the entry \<open>+infinity\<close> in the matrix \<open>floyd_warshall\<close> returns. A sum
  with an infinite term is infinite and \<open>+infinity\<close> is smaller than nothing, so for a
  square matrix, identifiers of the range and a non-empty trip, a candidate route that
  needs an infinite entry is evaluated without an exception to the cost \<open>+infinity\<close>
  and never replaces the departure point chosen so far; a leaf of infinite total cost
  leaves the best result as it is; and when every hub subset has a trip that is
  infeasible from every departure point, the solver returns a result, not an
  exception, whose total cost is \<open>+infinity\<close>.
\<close>

theorem infinito_se_propaga_y_descalifica:
  "(aristas_validas n es \<and> a < n \<and> b < n \<and> a \<noteq> b \<and>
      (\<forall>ks. set ks \<subseteq> {..<n} \<longrightarrow> peso_camino (peso_arista es) a ks b = PInf) \<longrightarrow>
      (\<exists>d. floyd_warshall es n = Inr d \<and> d ! a ! b = PInf)) \<and>
   (x + PInf = PInf \<and> PInf + x = PInf \<and> \<not> PInf < x) \<and>
   (cuadrada n m \<and> en_rango n dep \<and> en_rango n p \<and> viaje \<noteq> [] \<and>
      list_all (en_rango n) viaje \<and>
      (entrada m p (hd viaje) = PInf \<or>
       PInf \<in> set (map2 (entrada m) (butlast viaje) (tl viaje)) \<or>
       entrada m (last viaje) dep = PInf) \<longrightarrow>
      distancia_viaje m dep p viaje = Inr PInf \<and>
      probar_inicios m dep viaje (p # ps) st = probar_inicios m dep viaje ps st) \<and>
   (costo_de_hoja dt m ppd (ha, ca) = Inr PInf \<longrightarrow> hoja dt m ppd ha ca mb = Inr mb) \<and>
   (cuadrada n m \<and> en_rango n (deposito_id dt) \<and>
      list_all (en_rango n) (map fst (hubs dt)) \<and>
      viajes_validos n (viajes_de (capacidad_camion dt) (paquetes_por_destino (paquetes dt))) \<and>
      (\<forall>ha \<in> set (subseqs (map fst (hubs dt))).
         \<exists>v \<in> set (viajes_de (capacidad_camion dt) (paquetes_por_destino (paquetes dt))).
           inviable m (deposito_id dt) ha v) \<longrightarrow>
      calcular_mejor_camino dt m =
        Inr \<lparr>ruta = [], hubs_elegidos = [], costo_total = PInf, distancia = 0,
             costo_solo_hubs = Some PInf\<rparr>)"
proof (intro conjI impI)
  assume h: "aristas_validas n es \<and> a < n \<and> b < n \<and> a \<noteq> b \<and>
      (\<forall>ks. set ks \<subseteq> {..<n} \<longrightarrow> peso_camino (peso_arista es) a ks b = PInf)"
  then have v: "aristas_validas n es" and a: "a < n" and b: "b < n" and ab: "a \<noteq> b"
    and inf: "\<forall>ks. set ks \<subseteq> {..<n} \<longrightarrow> peso_camino (peso_arista es) a ks b = PInf"
    by simp_all
  from floyd_warshall_realiza_camino [OF v a b ab] obtain d ks where
    d: "floyd_warshall es n = Inr d" and ks: "set ks \<subseteq> {..<n}"
    and e: "peso_camino (peso_arista es) a ks b = d ! a ! b"
    by (elim exE conjE)
  from inf ks have "peso_camino (peso_arista es) a ks b = PInf" by simp
  with e have "d ! a ! b = PInf" by simp
  with d show "\<exists>d. floyd_warshall es n = Inr d \<and> d ! a ! b = PInf" by (intro exI conjI)
next
  show "x + PInf = PInf" by simp
  show "PInf + x = PInf" by simp
  show "\<not> PInf < x" by simp
next
  assume h: "cuadrada n m \<and> en_rango n dep \<and> en_rango n p \<and> viaje \<noteq> [] \<and>
      list_all (en_rango n) viaje \<and>
      (entrada m p (hd viaje) = PInf \<or>
       PInf \<in> set (map2 (entrada m) (butlast viaje) (tl viaje)) \<or>
       entrada m (last viaje) dep = PInf)"
  then have h1: "cuadrada n m" and h2: "en_rango n dep" and h3: "en_rango n p"
    and h4: "viaje \<noteq> []" and h5: "list_all (en_rango n) viaje"
    and h6: "entrada m p (hd viaje) = PInf \<or>
       PInf \<in> set (map2 (entrada m) (butlast viaje) (tl viaje)) \<or>
       entrada m (last viaje) dep = PInf"
    by blast+
  have "distancia_viaje m dep p viaje = Inr (costo_salida m dep p viaje)"
    by (rule distancia_viaje_en_rango [OF h1 h2 h3 h4 h5])
  moreover have "costo_salida m dep p viaje = PInf"
    by (rule costo_salida_infinito [OF h6])
  ultimately show d: "distancia_viaje m dep p viaje = Inr PInf" by simp
  then show "probar_inicios m dep viaje (p # ps) st = probar_inicios m dep viaje ps st"
    by (rule probar_inicios_descarta)
next
  assume "costo_de_hoja dt m ppd (ha, ca) = Inr PInf"
  then show "hoja dt m ppd ha ca mb = Inr mb" by (rule hoja_costo_infinito)
next
  assume h: "cuadrada n m \<and> en_rango n (deposito_id dt) \<and>
      list_all (en_rango n) (map fst (hubs dt)) \<and>
      viajes_validos n (viajes_de (capacidad_camion dt) (paquetes_por_destino (paquetes dt))) \<and>
      (\<forall>ha \<in> set (subseqs (map fst (hubs dt))).
         \<exists>v \<in> set (viajes_de (capacidad_camion dt) (paquetes_por_destino (paquetes dt))).
           inviable m (deposito_id dt) ha v)"
  then have "probar_combinaciones dt m (paquetes_por_destino (paquetes dt)) 0 [] 0 mejor_inicial
      = Inr mejor_inicial"
    by (intro busqueda_inviable [of n]) blast+
  then show "calcular_mejor_camino dt m =
        Inr \<lparr>ruta = [], hubs_elegidos = [], costo_total = PInf, distancia = 0,
             costo_solo_hubs = Some PInf\<rparr>"
    by (simp add: calcular_mejor_camino_def mejor_inicial_def zero_ext_def)
qed

theorem infinito_se_propaga_y_descalifica_witness:
  "aristas_validas 2 [] \<and> floyd_warshall [] 2 = Inr matriz_desconectada \<and>
   matriz_desconectada ! 0 ! 1 = PInf \<and>
   Fin 3 + PInf = PInf \<and>
   cuadrada 2 matriz_desconectada \<and> entrada matriz_desconectada 0 (hd [1]) = PInf \<and>
   distancia_viaje matriz_desconectada 0 0 [1] = Inr PInf \<and>
   probar_inicios matriz_desconectada 0 [1] [0, 1] (PInf, 0) =
     probar_inicios matriz_desconectada 0 [1] [1] (PInf, 0) \<and>
   costo_de_hoja datos_desconectado matriz_desconectada [(1, 1)] ([], 0) = Inr PInf \<and>
   hoja datos_desconectado matriz_desconectada [(1, 1)] [] 0 mejor_inicial = Inr mejor_inicial \<and>
   viajes_validos 2 (viajes_de (capacidad_camion datos_desconectado)
     (paquetes_por_destino (paquetes datos_desconectado))) \<and>
   inviable matriz_desconectada 0 [] [1] \<and> inviable matriz_desconectada 0 [1] [1] \<and>
   calcular_mejor_camino datos_desconectado matriz_desconectada =
     Inr \<lparr>ruta = [], hubs_elegidos = [], costo_total = PInf, distancia = 0,
          costo_solo_hubs = Some PInf\<rparr>"
proof -
  note t = infinito_se_propaga_y_descalifica [where n = 2 and es = "[]" and a = 0 and b = 1
      and x = "Fin 3" and m = matriz_desconectada and dep = 0 and p = 0 and viaje = "[1]"
      and ps = "[1]" and st = "(PInf, 0)" and dt = datos_desconectado and ppd = "[(1, 1)]"
      and ha = "[]" and ca = 0 and mb = mejor_inicial]
  have v: "aristas_validas 2 []" by code_simp
  have f: "floyd_warshall [] 2 = Inr matriz_desconectada" by code_simp
  have sin: "peso_camino (peso_arista []) 0 ks 1 = PInf" for ks
    by (cases ks) (simp_all add: peso_arista_def)
  have pa: "aristas_validas 2 [] \<and> (0::nat) < 2 \<and> (1::nat) < 2 \<and> (0::nat) \<noteq> 1 \<and>
      (\<forall>ks. set ks \<subseteq> {..<2} \<longrightarrow> peso_camino (peso_arista []) 0 ks 1 = PInf)"
    using v sin by simp
  from t pa obtain d where "floyd_warshall [] 2 = Inr d" "d ! 0 ! 1 = PInf" by blast
  with f have e1: "matriz_desconectada ! 0 ! 1 = PInf" by simp
  from t have e2: "Fin 3 + PInf = PInf" by blast
  have c: "cuadrada 2 matriz_desconectada" by code_simp
  have en: "entrada matriz_desconectada 0 (hd [1]) = PInf" by code_simp
  have r0: "en_rango 2 0" by code_simp
  have r1: "list_all (en_rango 2) [1]" by code_simp
  have ne: "[1] \<noteq> ([]::int list)" by simp
  from t c en r0 r1 ne have e3: "distancia_viaje matriz_desconectada 0 0 [1] = Inr PInf"
    and e4: "probar_inicios matriz_desconectada 0 [1] [0, 1] (PInf, 0) =
     probar_inicios matriz_desconectada 0 [1] [1] (PInf, 0)"
    by blast+
  have ch: "costo_de_hoja datos_desconectado matriz_desconectada [(1, 1)] ([], 0) = Inr PInf"
    by code_simp
  from t ch have e5: "hoja datos_desconectado matriz_desconectada [(1, 1)] [] 0 mejor_inicial =
      Inr mejor_inicial"
    by blast
  have d0: "en_rango 2 (deposito_id datos_desconectado)" by code_simp
  have hr: "list_all (en_rango 2) (map fst (hubs datos_desconectado))" by code_simp
  have vv: "viajes_validos 2 (viajes_de (capacidad_camion datos_desconectado)
     (paquetes_por_destino (paquetes datos_desconectado)))"
    by code_simp
  have i0: "inviable matriz_desconectada 0 [] [1]" by code_simp
  have i1: "inviable matriz_desconectada 0 [1] [1]" by code_simp
  have todos: "\<forall>ha \<in> set (subseqs (map fst (hubs datos_desconectado))).
         \<exists>v \<in> set (viajes_de (capacidad_camion datos_desconectado)
                    (paquetes_por_destino (paquetes datos_desconectado))).
           inviable matriz_desconectada (deposito_id datos_desconectado) ha v"
    by code_simp
  from t c d0 hr vv todos have e6: "calcular_mejor_camino datos_desconectado matriz_desconectada =
     Inr \<lparr>ruta = [], hubs_elegidos = [], costo_total = PInf, distancia = 0,
          costo_solo_hubs = Some PInf\<rparr>"
    by blast
  show ?thesis
    by (intro conjI v f e1 e2 c en e3 e4 ch e5 vv i0 i1 e6)
qed

end
